theory Spec2Isabelle
  imports Main
begin

section \<open>The worker pool of \<open>src/Pool.js\<close>\<close>

text \<open>
  The dispatcher of \<open>Pool.js\<close> as state-passing functions over a record of the pool's
  fields. The collaborators whose code is outside \<open>Pool.js\<close> (the worker handles, the
  futures, the timer, the user hooks) are opaque: every call the pool makes on them is
  appended to a trace of events, and what they answer (\<open>available()\<close>, the outcome of
  \<open>terminateAndNotify\<close>, \<open>worker.terminated\<close>) is an argument of the operation that asks.
  Objects compared by identity in the source (worker handles, tasks with their resolver)
  are natural numbers handed out by two counters of the state.
  Numbers are mathematical integers: fractions, \<open>NaN\<close> and, except for the queue bound,
  \<open>Infinity\<close> are outside the model. The transport fields that the constructor only copies
  into the worker factory (\<open>forkArgs\<close>, \<open>forkOpts\<close>, \<open>workerThreadOpts\<close>, \<open>debugPortStart\<close>,
  \<open>workerType\<close>, \<open>concurrency\<close>, \<open>maxExec\<close>, the ready timeouts) are not part of the state,
  nor is the constructor's call of \<open>WorkerHandler.ensureWorkerThreads()\<close>. The methods that
  only read the pool (\<open>stats\<close>, \<open>wstats\<close>, \<open>getNumberAvailableWorkers\<close>) are left out.
\<close>

subsection \<open>Values\<close>

datatype jsval =
    Undefined
  | Null
  | Bool bool
  | Num int
  | Str string
  | Arr "jsval list"
  | Fn string  \<comment> \<open>a callable \<open>f\<close>, with the text that \<open>String(f)\<close> gives\<close>

fun truthy :: "jsval \<Rightarrow> bool" where
  "truthy Undefined = False"
| "truthy Null = False"
| "truthy (Bool b) = b"
| "truthy (Num n) = (n \<noteq> 0)"
| "truthy (Str s) = (s \<noteq> [])"
| "truthy (Arr xs) = True"
| "truthy (Fn src) = True"

fun isArray :: "jsval \<Rightarrow> bool" where
  "isArray (Arr xs) = True"
| "isArray v = False"

datatype error = TypeError string | Error string

text \<open>\<open>maxQueueSize\<close> is a number or \<open>Infinity\<close>.\<close>

datatype limit = Finite int | Infinity

fun limit_reached :: "nat \<Rightarrow> limit \<Rightarrow> bool" where  \<comment> \<open>\<open>len >= limit\<close>\<close>
  "limit_reached len (Finite n) = (n \<le> int len)"
| "limit_reached len Infinity = False"

text \<open>
  String concatenation with a number: decimal digits, a minus sign for a negative one
  (the rendering of JavaScript for integers of magnitude below \<open>10^21\<close>).
\<close>

function show_nat :: "nat \<Rightarrow> string" where
  "show_nat n =
     (if n < 10 then [''0123456789'' ! n]
      else show_nat (n div 10) @ [''0123456789'' ! (n mod 10)])"
  by pat_completeness auto
termination
  by (relation "measure (\<lambda>n. n)") auto

declare show_nat.simps [simp del]

definition show_int :: "int \<Rightarrow> string" where
  "show_int i = (if i < 0 then CHR ''-'' # show_nat (nat (- i)) else show_nat (nat i))"

fun show_limit :: "limit \<Rightarrow> string" where
  "show_limit (Finite n) = show_int n"
| "show_limit Infinity = ''Infinity''"

subsection \<open>Tasks, events and the pool\<close>

record exec_options =
  affinity :: "int option"  \<comment> \<open>\<open>None\<close>: absent or \<open>null\<close>\<close>
  passthrough :: "(string \<times> jsval) list"

text \<open>
  A queued task \<open>{method, params, resolver, timeout, options}\<close>. \<open>tid\<close> is the identity of
  the task object and of its resolver's promise; \<open>pending\<close> is \<open>resolver.promise.pending\<close>.
\<close>

record task =
  tid :: nat
  methodName :: string  \<comment> \<open>the field \<open>method\<close>\<close>
  params :: jsval
  timeout :: jsval
  options :: "exec_options option"
  pending :: bool

datatype event =
    ResolverReject nat error  \<comment> \<open>\<open>task.resolver.reject(err)\<close>\<close>
  | WorkerExec nat task  \<comment> \<open>\<open>worker.exec(task.method, task.params, task.resolver, task.options)\<close>\<close>
  | ExecTimeout nat int  \<comment> \<open>\<open>promise.timeout(task.timeout)\<close> on the future chained on \<open>worker.exec\<close>\<close>
  | NativeTimeout nat jsval  \<comment> \<open>\<open>originalTimeout.call(resolver.promise, delay)\<close>\<close>
  | SetTimeout int  \<comment> \<open>\<open>setTimeout(() => (this.canCreateWorker = true), this.gradualScaling)\<close>\<close>
  | CreateWorker nat  \<comment> \<open>\<open>onCreateWorker\<close>, a debug port and \<open>new WorkerHandler\<close>\<close>
  | ReleasePort nat  \<comment> \<open>\<open>DEBUG_PORT_ALLOCATOR.releasePort(worker.debugPort)\<close>\<close>
  | WorkerTerminate nat bool  \<comment> \<open>\<open>worker.terminate(force, cb)\<close>\<close>
  | TerminateAndNotify nat bool "int option"  \<comment> \<open>\<open>worker.terminateAndNotify(force, timeout)\<close>\<close>
  | OnTerminateWorker nat  \<comment> \<open>\<open>onTerminateWorker\<close> with the descriptor of that worker\<close>

record pool =
  script :: "string option"
  workers :: "nat list"
  tasks :: "task list"
  roundrobin :: bool
  maxQueueSize :: limit
  gradualScaling :: int
  canCreateWorker :: bool
  maxWorkers :: int
  minWorkers :: "int option"  \<comment> \<open>\<open>None\<close>: the field was never set\<close>
  lastChosen :: int
  freshWorker :: nat  \<comment> \<open>the identity of the next worker handle\<close>
  freshTask :: nat  \<comment> \<open>the identity of the next task\<close>
  trace :: "event list"  \<comment> \<open>the calls made on the collaborators, oldest first\<close>

subsection \<open>Creating and removing workers\<close>

definition createWorkerHandler :: "pool \<Rightarrow> nat \<times> pool" where
  "createWorkerHandler s =
     (freshWorker s,
      s\<lparr>freshWorker := Suc (freshWorker s), trace := trace s @ [CreateWorker (freshWorker s)]\<rparr>)"

text \<open>\<open>worker = this._createWorkerHandler(); workers.push(worker)\<close>\<close>

definition pushWorker :: "pool \<Rightarrow> nat \<times> pool" where
  "pushWorker s =
     (case createWorkerHandler s of (w, s') \<Rightarrow> (w, s'\<lparr>workers := workers s' @ [w]\<rparr>))"

text \<open>The loop of \<open>_ensureMinWorkers\<close>: \<open>for (i = workers.length; i < minWorkers; i++)\<close>.\<close>

function ensureLoop :: "nat \<Rightarrow> int \<Rightarrow> pool \<Rightarrow> pool" where
  "ensureLoop i m s = (if int i < m then ensureLoop (Suc i) m (snd (pushWorker s)) else s)"
  by pat_completeness auto
termination
  by (relation "measure (\<lambda>(i, m, s). nat (m - int i))") auto

declare ensureLoop.simps [simp del]

definition ensureMinWorkers :: "pool \<Rightarrow> pool" where
  "ensureMinWorkers s =
     (case minWorkers s of
        None \<Rightarrow> s
      | Some m \<Rightarrow> if m = 0 then s else ensureLoop (length (workers s)) m s)"

text \<open>\<open>indexOf\<close> and \<open>splice(index, 1)\<close>: the first occurrence goes.\<close>

definition removeWorkerFromList :: "nat \<Rightarrow> pool \<Rightarrow> pool" where
  "removeWorkerFromList w s = s\<lparr>workers := remove1 w (workers s)\<rparr>"

text \<open>
  The synchronous part of \<open>_removeWorker\<close>; the callback of \<open>worker.terminate\<close> is
  \<open>removeWorker_done\<close>.
\<close>

definition removeWorker :: "nat \<Rightarrow> pool \<Rightarrow> pool" where
  "removeWorker w s =
     (let s1 = s\<lparr>trace := trace s @ [ReleasePort w]\<rparr>;
          s2 = removeWorkerFromList w s1;
          s3 = ensureMinWorkers s2
      in s3\<lparr>trace := trace s3 @ [WorkerTerminate w False]\<rparr>)"

definition removeWorker_done :: "nat \<Rightarrow> pool \<Rightarrow> pool" where
  "removeWorker_done w s = s\<lparr>trace := trace s @ [OnTerminateWorker w]\<rparr>"

subsection \<open>Choosing a worker\<close>

text \<open>
  The remainder \<open>a % n\<close> for \<open>n > 0\<close> takes the sign of \<open>a\<close>; \<open>workers[i]\<close> is \<open>undefined\<close>
  for an index that is negative or past the end.
\<close>

definition js_rem :: "int \<Rightarrow> int \<Rightarrow> int" where
  "js_rem a n = (if a < 0 then - ((- a) mod n) else a mod n)"

definition worker_at :: "nat list \<Rightarrow> int \<Rightarrow> nat option" where
  "worker_at ws i = (if 0 \<le> i \<and> i < int (length ws) then Some (ws ! nat i) else None)"

text \<open>
  Lines 276 to 293 of \<open>_getWorker\<close>: affinity, round robin, first available. \<open>av\<close> is what
  \<open>worker.available()\<close> answers. With no worker, \<open>affinity % 0\<close> is \<open>NaN\<close> and nothing is
  chosen.
\<close>

definition chooseWorker :: "(nat \<Rightarrow> bool) \<Rightarrow> int option \<Rightarrow> pool \<Rightarrow> nat option \<times> pool" where
  "chooseWorker av aff s =
     (let ws = workers s;
          c1 = (case aff of
                  None \<Rightarrow> None
                | Some a \<Rightarrow> if ws = [] then None else worker_at ws (js_rem a (int (length ws))));
          (c2, s2) =
            (if c1 = None \<and> roundrobin s \<and> 0 < length ws
             then (let i = js_rem (lastChosen s + 1) (int (length ws))
                   in (worker_at ws i, s\<lparr>lastChosen := i\<rparr>))
             else (c1, s));
          c3 = (if c2 = None then find av ws else c2)
      in (c3, s2))"

text \<open>\<open>chosenWorker = chosenWorker || worker\<close>\<close>

fun orWorker :: "nat option \<Rightarrow> nat \<Rightarrow> nat option" where
  "orWorker None w = Some w"
| "orWorker (Some c) w = Some c"

definition getWorker :: "(nat \<Rightarrow> bool) \<Rightarrow> int option \<Rightarrow> pool \<Rightarrow> nat option \<times> pool" where
  "getWorker av aff s =
     (case chooseWorker av aff s of
        (chosen, s1) \<Rightarrow>
          if int (length (workers s1)) < maxWorkers s1 then
            if gradualScaling s1 = 0 then
              (case pushWorker s1 of (w, s2) \<Rightarrow> (orWorker chosen w, s2))
            else if canCreateWorker s1 then
              (case pushWorker
                      (s1\<lparr>canCreateWorker := False,
                          trace := trace s1 @ [SetTimeout (gradualScaling s1)]\<rparr>) of
                 (w, s2) \<Rightarrow> (orWorker chosen w, s2))
            else (chosen, s1)
          else (chosen, s1))"

lemma pushWorker_eq:
  "pushWorker s =
     (freshWorker s,
      s\<lparr>freshWorker := Suc (freshWorker s), trace := trace s @ [CreateWorker (freshWorker s)],
        workers := workers s @ [freshWorker s]\<rparr>)"
  by (simp add: pushWorker_def createWorkerHandler_def)

lemma tasks_chooseWorker: "chooseWorker av aff s = (c, s1) \<Longrightarrow> tasks s1 = tasks s"
  by (auto simp: chooseWorker_def Let_def split: if_splits)

lemma tasks_getWorker: "getWorker av aff s = (r, s2) \<Longrightarrow> tasks s2 = tasks s"
  by (auto simp: getWorker_def pushWorker_eq split: prod.splits if_splits
      dest: tasks_chooseWorker)

subsection \<open>Dispatching\<close>

definition taskAffinity :: "task \<Rightarrow> int option" where  \<comment> \<open>\<open>task.options?.affinity\<close>\<close>
  "taskAffinity t = (case options t of None \<Rightarrow> None | Some opts \<Rightarrow> affinity opts)"

text \<open>
  The synchronous part of \<open>worker.exec(...)\<close> and of arming the recorded timeout
  (\<open>typeof task.timeout === "number"\<close>).
\<close>

definition dispatch :: "nat \<Rightarrow> task \<Rightarrow> pool \<Rightarrow> pool" where
  "dispatch w t s =
     (let s1 = s\<lparr>trace := trace s @ [WorkerExec w t]\<rparr>
      in case timeout t of
           Num d \<Rightarrow> s1\<lparr>trace := trace s1 @ [ExecTimeout (tid t) d]\<rparr>
         | _ \<Rightarrow> s1)"

text \<open>
  \<open>_next\<close>. The completion callbacks chained on \<open>worker.exec\<close> run later, as operations of
  their own (\<open>poolNext\<close> again, \<open>execFailed\<close>).
\<close>

function poolNext :: "(nat \<Rightarrow> bool) \<Rightarrow> pool \<Rightarrow> pool" where
  "poolNext av s =
     (case tasks s of
        [] \<Rightarrow> s
      | t # ts \<Rightarrow>
          (case getWorker av (taskAffinity t) s of
             (None, s1) \<Rightarrow> s1
           | (Some w, s1) \<Rightarrow>
               if pending t then dispatch w t (s1\<lparr>tasks := tl (tasks s1)\<rparr>)
               else poolNext av (s1\<lparr>tasks := tl (tasks s1)\<rparr>)))"
  by pat_completeness auto
termination
  by (relation "measure (\<lambda>(av, s). length (tasks s))")
    (auto dest: tasks_getWorker [OF sym])

declare poolNext.simps [simp del]

subsection \<open>Submitting\<close>

text \<open>
  \<open>exec\<close>. The result is the error thrown or the future returned, named by the identity of
  its task; the second component is the pool afterwards.
\<close>

function exec ::
  "(nat \<Rightarrow> bool) \<Rightarrow> jsval \<Rightarrow> jsval \<Rightarrow> exec_options option \<Rightarrow> pool \<Rightarrow> (error + nat) \<times> pool"
where
  "exec av meth prms opts s =
     (if truthy prms \<and> \<not> isArray prms then
        (Inl (TypeError ''Array expected as argument \"params\"''), s)
      else
        (case meth of
           Str m \<Rightarrow>
             if limit_reached (length (tasks s)) (maxQueueSize s) then
               (Inl (Error (''Max queue size of '' @ show_limit (maxQueueSize s) @ '' reached'')), s)
             else
               (let t = \<lparr>tid = freshTask s, methodName = m, params = prms, timeout = Null,
                          options = opts, pending = True\<rparr>
                in (Inr (tid t),
                    poolNext av (s\<lparr>tasks := tasks s @ [t], freshTask := Suc (freshTask s)\<rparr>)))
         | Fn src \<Rightarrow> exec av (Str ''run'') (Arr [Str src, prms]) None s
         | _ \<Rightarrow> (Inl (TypeError ''Function or string expected as argument \"method\"''), s)))"
  by pat_completeness auto
termination
  by (relation "measure (\<lambda>(av, meth, prms, opts, s). case meth of Fn src \<Rightarrow> 1 | _ \<Rightarrow> 0)") auto

declare exec.simps [simp del]

text \<open>
  The \<open>timeout\<close> method that \<open>exec\<close> installs on the future of task \<open>p\<close>
  (\<open>tasks.indexOf(task) !== -1\<close> is membership of the identity in the queue).
\<close>

datatype timeout_return =
    ReturnsPromise nat  \<comment> \<open>\<open>return resolver.promise\<close>\<close>
  | ReturnsNative  \<comment> \<open>what the original \<open>timeout\<close> returns\<close>

definition promiseTimeout :: "nat \<Rightarrow> jsval \<Rightarrow> pool \<Rightarrow> timeout_return \<times> pool" where
  "promiseTimeout p delay s =
     (if p \<in> set (map tid (tasks s)) then
        (ReturnsPromise p,
         s\<lparr>tasks := map (\<lambda>t. if tid t = p then t\<lparr>timeout := delay\<rparr> else t) (tasks s)\<rparr>)
      else (ReturnsNative, s\<lparr>trace := trace s @ [NativeTimeout p delay]\<rparr>))"

definition proxy :: "(nat \<Rightarrow> bool) \<Rightarrow> nat \<Rightarrow> pool \<Rightarrow> (error + nat) \<times> pool" where
  "proxy av nargs s =
     (if 0 < nargs then (Inl (Error ''No arguments expected''), s)
      else exec av (Str ''methods'') Undefined None s)"

subsection \<open>Terminating\<close>

text \<open>
  The synchronous part of \<open>terminate\<close>: the queued tasks are rejected, the queue is
  emptied, \<open>terminateAndNotify\<close> is called on a copy of the worker list.
\<close>

definition terminate :: "bool \<Rightarrow> int option \<Rightarrow> pool \<Rightarrow> nat list \<times> pool" where
  "terminate force tmo s =
     (let s1 = s\<lparr>trace := trace s @
                  map (\<lambda>t. ResolverReject (tid t) (Error ''Pool terminated'')) (tasks s)\<rparr>;
          s2 = s1\<lparr>tasks := []\<rparr>;
          snapshot = workers s2
      in (snapshot,
          s2\<lparr>trace := trace s2 @ map (\<lambda>w. TerminateAndNotify w force tmo) snapshot\<rparr>))"

text \<open>
  The chain \<open>.then(removeWorker).always(...)\<close> on the future of worker \<open>w\<close>, once that
  future has settled: \<open>Inl e\<close> when it was rejected, \<open>Inr v\<close> when it was resolved with
  \<open>v\<close>. \<open>then\<close> runs its callback on the resolved value only, \<open>always\<close> runs its callback in
  both cases.
\<close>

definition terminate_settled :: "nat \<Rightarrow> error + nat \<Rightarrow> pool \<Rightarrow> pool" where
  "terminate_settled w outcome s =
     (let s1 = (case outcome of Inl e \<Rightarrow> s | Inr v \<Rightarrow> removeWorkerFromList v s)
      in s1\<lparr>trace := trace s1 @ [OnTerminateWorker w]\<rparr>)"

text \<open>\<open>terminate\<close> with every future settled, in the order of the copy.\<close>

definition terminateAll :: "bool \<Rightarrow> int option \<Rightarrow> (nat \<Rightarrow> error + nat) \<Rightarrow> pool \<Rightarrow> pool" where
  "terminateAll force tmo outcome s =
     (case terminate force tmo s of
        (snapshot, s1) \<Rightarrow> fold (\<lambda>w. terminate_settled w (outcome w)) snapshot s1)"

subsection \<open>Callbacks\<close>

text \<open>
  The \<open>catch\<close> callback chained on \<open>worker.exec\<close> in \<open>_next\<close>, with the value of
  \<open>worker.terminated\<close> it reads; the timer callback of the scaling gate; a caller settling
  (cancelling) a future whose task is still queued.
\<close>

definition execFailed :: "bool \<Rightarrow> nat \<Rightarrow> pool \<Rightarrow> pool" where
  "execFailed terminated w s = (if terminated then removeWorker w s else s)"

definition timerFired :: "pool \<Rightarrow> pool" where
  "timerFired s = s\<lparr>canCreateWorker := True\<rparr>"

definition settleQueued :: "nat \<Rightarrow> pool \<Rightarrow> pool" where
  "settleQueued p s =
     s\<lparr>tasks := map (\<lambda>t. if tid t = p then t\<lparr>pending := False\<rparr> else t) (tasks s)\<rparr>"

subsection \<open>Construction\<close>

record pool_options =
  opt_roundrobin :: bool  \<comment> \<open>whether \<open>options.roundrobin\<close> is truthy\<close>
  opt_maxQueueSize :: "int option"
  opt_gradualScaling :: "int option"
  opt_maxWorkers :: "jsval option"  \<comment> \<open>\<open>Some v\<close>: \<open>"maxWorkers" in options\<close>\<close>
  opt_minWorkers :: "jsval option"

definition no_options :: pool_options where  \<comment> \<open>\<open>{}\<close>\<close>
  "no_options =
     \<lparr>opt_roundrobin = False, opt_maxQueueSize = None, opt_gradualScaling = None,
      opt_maxWorkers = None, opt_minWorkers = None\<rparr>"

datatype pool_arg = ArgString string | ArgOptions pool_options | ArgUndefined

definition validateMaxWorkers :: "jsval \<Rightarrow> error + int" where
  "validateMaxWorkers v =
     (case v of
        Num n \<Rightarrow>
          if n < 1 then Inl (TypeError ''Option maxWorkers must be an integer number >= 1'')
          else Inr n
      | _ \<Rightarrow> Inl (TypeError ''Option maxWorkers must be an integer number >= 1''))"

definition validateMinWorkers :: "jsval \<Rightarrow> error + int" where
  "validateMinWorkers v =
     (case v of
        Num n \<Rightarrow>
          if n < 0 then Inl (TypeError ''Option minWorkers must be an integer number >= 0'')
          else Inr n
      | _ \<Rightarrow> Inl (TypeError ''Option minWorkers must be an integer number >= 0''))"

text \<open>
  Lines 35 to 45 of the constructor: \<open>script\<close> when the first argument is a string, and
  the options in effect (the first argument when it is not a string, \<open>{}\<close> when there are
  none).
\<close>

definition pool_args :: "pool_arg \<Rightarrow> pool_options option \<Rightarrow> string option \<times> pool_options" where
  "pool_args arg1 options0 =
     (let (scr, optarg) =
            (case arg1 of
               ArgString str \<Rightarrow> (if str = [] then None else Some str, options0)
             | ArgOptions opts \<Rightarrow> (None, Some opts)
             | ArgUndefined \<Rightarrow> (None, None))
      in (scr, case optarg of None \<Rightarrow> no_options | Some given \<Rightarrow> given))"

text \<open>
  The fields set from the options alone (lines 42 to 65). \<open>maxWorkers\<close> and \<open>minWorkers\<close>
  are written by the lines that follow. The cursor \<open>lastChosen\<close>, which the source sets
  last, is set here: nothing reads it in between.
\<close>

definition initial_pool :: "string option \<Rightarrow> pool_options \<Rightarrow> pool" where
  "initial_pool scr opts =
     \<lparr>script = scr, workers = [], tasks = [], roundrobin = opt_roundrobin opts,
      maxQueueSize =
        (case opt_maxQueueSize opts of
           None \<Rightarrow> Infinity
         | Some n \<Rightarrow> if n = 0 then Infinity else Finite n),
      gradualScaling = (case opt_gradualScaling opts of None \<Rightarrow> 0 | Some g \<Rightarrow> g),
      canCreateWorker = True, maxWorkers = 0, minWorkers = None, lastChosen = - 1,
      freshWorker = 0, freshTask = 0, trace = []\<rparr>"

text \<open>Lines 68 to 73; \<open>cpus\<close> is \<open>environment.cpus\<close>.\<close>

definition configuredMaxWorkers :: "int option \<Rightarrow> pool_options \<Rightarrow> error + int" where
  "configuredMaxWorkers cpus opts =
     (case opt_maxWorkers opts of
        Some v \<Rightarrow> validateMaxWorkers v
      | None \<Rightarrow> Inr (max ((case cpus of None \<Rightarrow> 4 | Some c \<Rightarrow> if c = 0 then 4 else c) - 1) 1))"

text \<open>\<open>new Pool(script, options)\<close>.\<close>

definition Pool :: "int option \<Rightarrow> pool_arg \<Rightarrow> pool_options option \<Rightarrow> error + pool" where
  "Pool cpus arg1 options0 =
     (case pool_args arg1 options0 of
        (scr, opts) \<Rightarrow>
          (case configuredMaxWorkers cpus opts of
             Inl e \<Rightarrow> Inl e
           | Inr mx \<Rightarrow>
               (case opt_minWorkers opts of
                  None \<Rightarrow> Inr ((initial_pool scr opts)\<lparr>maxWorkers := mx\<rparr>)
                | Some v \<Rightarrow>
                    if v = Str ''max'' then
                      Inr (ensureMinWorkers
                             ((initial_pool scr opts)\<lparr>maxWorkers := mx, minWorkers := Some mx\<rparr>))
                    else
                      (case validateMinWorkers v of
                         Inl e \<Rightarrow> Inl e
                       | Inr mn \<Rightarrow>
                           Inr (ensureMinWorkers
                                  ((initial_pool scr opts)
                                     \<lparr>minWorkers := Some mn, maxWorkers := max mn mx\<rparr>))))))"

subsection \<open>Operations of a pool\<close>

text \<open>
  Everything that can happen to a pool after its construction: the methods, and the
  callbacks above.
\<close>

datatype pool_op =
    OpExec "nat \<Rightarrow> bool" jsval jsval "exec_options option"
  | OpProxy "nat \<Rightarrow> bool" nat
  | OpNext "nat \<Rightarrow> bool"
  | OpGetWorker "nat \<Rightarrow> bool" "int option"
  | OpEnsureMinWorkers
  | OpRemoveWorker nat
  | OpRemoveWorkerDone nat
  | OpExecFailed bool nat
  | OpTerminate bool "int option"
  | OpTerminateSettled nat "error + nat"
  | OpPromiseTimeout nat jsval
  | OpSettleQueued nat
  | OpTimerFired

fun apply_op :: "pool_op \<Rightarrow> pool \<Rightarrow> pool" where
  "apply_op (OpExec av meth prms opts) s = snd (exec av meth prms opts s)"
| "apply_op (OpProxy av nargs) s = snd (proxy av nargs s)"
| "apply_op (OpNext av) s = poolNext av s"
| "apply_op (OpGetWorker av aff) s = snd (getWorker av aff s)"
| "apply_op OpEnsureMinWorkers s = ensureMinWorkers s"
| "apply_op (OpRemoveWorker w) s = removeWorker w s"
| "apply_op (OpRemoveWorkerDone w) s = removeWorker_done w s"
| "apply_op (OpExecFailed terminated w) s = execFailed terminated w s"
| "apply_op (OpTerminate force tmo) s = snd (terminate force tmo s)"
| "apply_op (OpTerminateSettled w outcome) s = terminate_settled w outcome s"
| "apply_op (OpPromiseTimeout p delay) s = snd (promiseTimeout p delay s)"
| "apply_op (OpSettleQueued p) s = settleQueued p s"
| "apply_op OpTimerFired s = timerFired s"

definition run_ops :: "pool_op list \<Rightarrow> pool \<Rightarrow> pool" where
  "run_ops ops s = fold apply_op ops s"

text \<open>The fields that only the constructor writes.\<close>

definition config :: "pool \<Rightarrow> limit \<times> int \<times> int \<times> int option \<times> bool \<times> string option" where
  "config s =
     (maxQueueSize s, gradualScaling s, maxWorkers s, minWorkers s, roundrobin s, script s)"

subsection \<open>Pools used as examples\<close>

text \<open>
  A pool built with \<open>{maxQueueSize: 0, maxWorkers: 1}\<close>, and a pool built with
  \<open>{maxQueueSize: 1, maxWorkers: 1}\<close> after two submissions: the first task is with the
  only worker, the second is queued.
\<close>

definition unbounded_options :: pool_options where
  "unbounded_options = no_options\<lparr>opt_maxQueueSize := Some 0, opt_maxWorkers := Some (Num 1)\<rparr>"

definition unbounded_pool :: pool where
  "unbounded_pool =
     \<lparr>script = None, workers = [], tasks = [], roundrobin = False, maxQueueSize = Infinity,
      gradualScaling = 0, canCreateWorker = True, maxWorkers = 1, minWorkers = None,
      lastChosen = - 1, freshWorker = 0, freshTask = 0, trace = []\<rparr>"

definition full_pool :: pool where
  "full_pool =
     \<lparr>script = None, workers = [0],
      tasks = [\<lparr>tid = 1, methodName = ''b'', params = Undefined, timeout = Null,
                options = None, pending = True\<rparr>],
      roundrobin = False, maxQueueSize = Finite 1, gradualScaling = 0, canCreateWorker = True,
      maxWorkers = 1, minWorkers = None, lastChosen = - 1, freshWorker = 1, freshTask = 2,
      trace = [CreateWorker 0,
               WorkerExec 0 \<lparr>tid = 0, methodName = ''a'', params = Undefined, timeout = Null,
                             options = None, pending = True\<rparr>]\<rparr>"

text \<open>
  A pool with \<open>maxWorkers: 2\<close> whose first worker is busy with a task.
\<close>

definition growing_pool :: pool where
  "growing_pool =
     \<lparr>script = None, workers = [0], tasks = [], roundrobin = False, maxQueueSize = Infinity,
      gradualScaling = 0, canCreateWorker = True, maxWorkers = 2, minWorkers = None,
      lastChosen = - 1, freshWorker = 1, freshTask = 1,
      trace = [CreateWorker 0,
               WorkerExec 0 \<lparr>tid = 0, methodName = ''a'', params = Undefined, timeout = Null,
                             options = None, pending = True\<rparr>]\<rparr>"

text \<open>
  A pool built with \<open>{maxWorkers: 2, minWorkers: "max"}\<close>, and the answer of \<open>available()\<close>
  when every worker is free.
\<close>

definition all_available :: "nat \<Rightarrow> bool" where
  "all_available w = True"

definition pair_pool :: pool where
  "pair_pool =
     \<lparr>script = None, workers = [0, 1], tasks = [], roundrobin = False, maxQueueSize = Infinity,
      gradualScaling = 0, canCreateWorker = True, maxWorkers = 2, minWorkers = Some 2,
      lastChosen = - 1, freshWorker = 2, freshTask = 0,
      trace = [CreateWorker 0, CreateWorker 1]\<rparr>"

text \<open>
  A pool built with \<open>{gradualScaling: 1000, maxWorkers: 3}\<close> after one submission: the
  gate is closed, the timer is running.
\<close>

definition gated_pool :: pool where
  "gated_pool =
     \<lparr>script = None, workers = [0], tasks = [], roundrobin = False, maxQueueSize = Infinity,
      gradualScaling = 1000, canCreateWorker = False, maxWorkers = 3, minWorkers = None,
      lastChosen = - 1, freshWorker = 1, freshTask = 1,
      trace = [SetTimeout 1000, CreateWorker 0,
               WorkerExec 0 \<lparr>tid = 0, methodName = ''a'', params = Undefined, timeout = Null,
                             options = None, pending = True\<rparr>]\<rparr>"

text \<open>
  A pool with one busy worker and two queued tasks: the future of the first was cancelled,
  the second had \<open>timeout(50)\<close> called on its future.
\<close>

definition cancelled_task :: task where
  "cancelled_task =
     \<lparr>tid = 1, methodName = ''b'', params = Undefined, timeout = Null, options = None,
      pending = False\<rparr>"

definition timed_task :: task where
  "timed_task =
     \<lparr>tid = 2, methodName = ''c'', params = Arr [Num 1], timeout = Num 50, options = None,
      pending = True\<rparr>"

definition queue_pool :: pool where
  "queue_pool =
     \<lparr>script = None, workers = [0], tasks = [cancelled_task, timed_task], roundrobin = False,
      maxQueueSize = Infinity, gradualScaling = 0, canCreateWorker = True, maxWorkers = 1,
      minWorkers = None, lastChosen = - 1, freshWorker = 1, freshTask = 3,
      trace = [CreateWorker 0,
               WorkerExec 0 \<lparr>tid = 0, methodName = ''a'', params = Undefined, timeout = Null,
                             options = None, pending = True\<rparr>]\<rparr>"

text \<open>
  The invariant of the worker list: at most \<open>maxWorkers\<close> workers, and a \<open>minWorkers\<close>
  that is set is at most \<open>maxWorkers\<close>.
\<close>

definition pool_inv :: "pool \<Rightarrow> bool" where
  "pool_inv s =
     (int (length (workers s)) \<le> maxWorkers s \<and>
      (\<forall>m. minWorkers s = Some m \<longrightarrow> m \<le> maxWorkers s))"


text \<open>
  A pool built with \<open>{maxWorkers: 2, minWorkers: 3}\<close>: \<open>maxWorkers\<close> is raised to 3.
\<close>

definition raised_options :: pool_options where
  "raised_options = no_options\<lparr>opt_maxWorkers := Some (Num 2), opt_minWorkers := Some (Num 3)\<rparr>"

definition raised_pool :: pool where
  "raised_pool =
     \<lparr>script = None, workers = [0, 1, 2], tasks = [], roundrobin = False,
      maxQueueSize = Infinity, gradualScaling = 0, canCreateWorker = True, maxWorkers = 3,
      minWorkers = Some 3, lastChosen = - 1, freshWorker = 3, freshTask = 0,
      trace = [CreateWorker 0, CreateWorker 1, CreateWorker 2]\<rparr>"

text \<open>
  Two outcomes of \<open>terminateAndNotify\<close>: every worker resolves with its handle; the
  first worker is rejected and the others resolve.
\<close>

definition all_resolve :: "nat \<Rightarrow> error + nat" where
  "all_resolve w = Inr w"

definition first_fails :: "nat \<Rightarrow> error + nat" where
  "first_fails w = (if w = 0 then Inl (Error ''Worker terminating timed out'') else Inr w)"

text \<open>The options \<open>{affinity: 1}\<close> of a submission.\<close>

definition pinned_options :: exec_options where
  "pinned_options = \<lparr>affinity = Some 1, passthrough = []\<rparr>"

text \<open>The answer of \<open>available()\<close> when every worker is busy.\<close>

definition none_available :: "nat \<Rightarrow> bool" where
  "none_available w = False"

section \<open>Properties\<close>

subsection \<open>Unfolding \<open>exec\<close> and \<open>_next\<close>\<close>

lemma poolNext_preserves:
  assumes get: "\<And>av aff s r s1. P s \<Longrightarrow> getWorker av aff s = (r, s1) \<Longrightarrow> P s1"
    and shift: "\<And>s. P s \<Longrightarrow> P (s\<lparr>tasks := tl (tasks s)\<rparr>)"
    and disp: "\<And>w t s. P s \<Longrightarrow> pending t \<Longrightarrow> P (dispatch w t s)"
  shows "P s \<Longrightarrow> P (poolNext av s)"
proof (induction av s rule: poolNext.induct)
  case (1 av s)
  show ?case
  proof (cases "tasks s")
    case Nil
    with "1.prems" show ?thesis by (simp add: poolNext.simps [of av s])
  next
    case (Cons t ts)
    obtain r s1 where g: "getWorker av (taskAffinity t) s = (r, s1)"
      by (cases "getWorker av (taskAffinity t) s")
    have p1: "P s1" using "1.prems" g by (rule get)
    show ?thesis
    proof (cases r)
      case None
      with Cons g p1 show ?thesis by (simp add: poolNext.simps [of av s])
    next
      case (Some w)
      have p2: "P (s1\<lparr>tasks := tl (tasks s1)\<rparr>)" using p1 by (rule shift)
      show ?thesis
      proof (cases "pending t")
        case True
        with Cons g Some disp [OF p2 True, of w] show ?thesis
          by (simp add: poolNext.simps [of av s])
      next
        case False
        with Cons g Some have "poolNext av s = poolNext av (s1\<lparr>tasks := tl (tasks s1)\<rparr>)"
          by (simp add: poolNext.simps [of av s])
        moreover have "P (poolNext av (s1\<lparr>tasks := tl (tasks s1)\<rparr>))"
          using "1.IH" [OF Cons g [symmetric] Some False p2] .
        ultimately show ?thesis by simp
      qed
    qed
  qed
qed

lemma exec_bad_params:
  "truthy prms \<and> \<not> isArray prms \<Longrightarrow>
   exec av meth prms opts s = (Inl (TypeError ''Array expected as argument \"params\"''), s)"
  by (subst exec.simps) simp

lemma exec_Str:
  "\<not> (truthy prms \<and> \<not> isArray prms) \<Longrightarrow>
   exec av (Str m) prms opts s =
     (if limit_reached (length (tasks s)) (maxQueueSize s) then
        (Inl (Error (''Max queue size of '' @ show_limit (maxQueueSize s) @ '' reached'')), s)
      else
        (Inr (freshTask s),
         poolNext av
           (s\<lparr>tasks := tasks s @
                  [\<lparr>tid = freshTask s, methodName = m, params = prms, timeout = Null,
                    options = opts, pending = True\<rparr>],
               freshTask := Suc (freshTask s)\<rparr>)))"
  by (subst exec.simps) (auto simp: Let_def)

lemma exec_Fn:
  "\<not> (truthy prms \<and> \<not> isArray prms) \<Longrightarrow>
   exec av (Fn src) prms opts s = exec av (Str ''run'') (Arr [Str src, prms]) None s"
  by (subst exec.simps) auto

lemma exec_other:
  "\<not> (truthy prms \<and> \<not> isArray prms) \<Longrightarrow> (\<forall>m. meth \<noteq> Str m) \<Longrightarrow> (\<forall>src. meth \<noteq> Fn src) \<Longrightarrow>
   exec av meth prms opts s =
     (Inl (TypeError ''Function or string expected as argument \"method\"''), s)"
  by (subst exec.simps) (auto split: jsval.splits)

lemma exec_preserves:
  assumes nxt: "\<And>av s. P s \<Longrightarrow> P (poolNext av s)"
    and push: "\<And>t s. P s \<Longrightarrow> P (s\<lparr>tasks := tasks s @ [t], freshTask := Suc (freshTask s)\<rparr>)"
    and P: "P s"
  shows "P (snd (exec av meth prms opts s))"
proof (cases "truthy prms \<and> \<not> isArray prms")
  case True
  then show ?thesis using P by (simp add: exec_bad_params)
next
  case False
  have str: "P (snd (exec av (Str m) ps os s))" if "\<not> (truthy ps \<and> \<not> isArray ps)" for m ps os
    using that nxt [OF push [OF P]] P by (simp add: exec_Str)
  show ?thesis
  proof (cases meth)
    case (Str m)
    with str [OF False] show ?thesis by simp
  next
    case (Fn src)
    have "exec av meth prms opts s = exec av (Str ''run'') (Arr [Str src, prms]) None s"
      using False Fn by (simp add: exec_Fn)
    with str [of "Arr [Str src, prms]" "''run''" None] show ?thesis by simp
  qed (use False P in \<open>simp_all add: exec_other\<close>)
qed

subsection \<open>The configuration is fixed at construction\<close>

lemma config_chooseWorker: "chooseWorker av aff s = (c, s1) \<Longrightarrow> config s1 = config s"
  by (auto simp: chooseWorker_def config_def Let_def split: if_splits)

lemma config_getWorker: "getWorker av aff s = (r, s2) \<Longrightarrow> config s2 = config s"
  by (auto simp: getWorker_def pushWorker_eq config_def split: prod.splits if_splits
      dest!: config_chooseWorker)

lemma ensureLoop_step: "int i < m \<Longrightarrow> ensureLoop i m s = ensureLoop (Suc i) m (snd (pushWorker s))"
  by (subst ensureLoop.simps) simp

lemma ensureLoop_stop: "\<not> int i < m \<Longrightarrow> ensureLoop i m s = s"
  by (subst ensureLoop.simps) simp

lemma ensureLoop_preserves:
  assumes "\<And>s. P s \<Longrightarrow> P (snd (pushWorker s))"
  shows "P s \<Longrightarrow> P (ensureLoop i m s)"
proof (induction i m s rule: ensureLoop.induct)
  case (1 i m s)
  show ?case
  proof (cases "int i < m")
    case True
    then show ?thesis
      using "1.IH" [OF True assms [OF "1.prems"]] by (simp add: ensureLoop_step)
  next
    case False
    with "1.prems" show ?thesis by (simp add: ensureLoop_stop)
  qed
qed

lemma length_ensureLoop:
  "length (workers (ensureLoop i m s)) = length (workers s) + nat (m - int i)"
proof (induction i m s rule: ensureLoop.induct)
  case (1 i m s)
  show ?case
  proof (cases "int i < m")
    case True
    have "nat (m - int i) = Suc (nat (m - int (Suc i)))"
      using True by simp
    with True "1.IH" [OF True] show ?thesis
      by (simp add: ensureLoop_step pushWorker_eq)
  next
    case False
    then show ?thesis by (simp add: ensureLoop_stop)
  qed
qed

lemma config_ensureMinWorkers: "config (ensureMinWorkers s) = config s"
proof -
  have "config (ensureLoop i m s) = config s" for i m
    by (rule ensureLoop_preserves [where P = "\<lambda>s'. config s' = config s"])
      (simp_all add: pushWorker_eq config_def)
  then show ?thesis
    by (simp add: ensureMinWorkers_def split: option.splits)
qed

lemma config_removeWorker: "config (removeWorker w s) = config s"
proof -
  have "config (ensureMinWorkers (removeWorkerFromList w (s\<lparr>trace := trace s @ [ReleasePort w]\<rparr>))) =
      config s"
    unfolding config_ensureMinWorkers by (simp add: config_def removeWorkerFromList_def)
  then show ?thesis
    by (simp add: removeWorker_def Let_def config_def)
qed

lemma config_dispatch: "config (dispatch w t s) = config s"
  by (simp add: dispatch_def config_def Let_def split: jsval.splits)

lemma config_poolNext: "config (poolNext av s) = config s"
  by (rule poolNext_preserves [where P = "\<lambda>s'. config s' = config s"])
    (simp_all add: config_getWorker config_dispatch, simp add: config_def)

lemma config_exec: "config (snd (exec av meth prms opts s)) = config s"
  by (rule exec_preserves [where P = "\<lambda>s'. config s' = config s"])
    (simp_all add: config_poolNext, simp add: config_def)

lemma config_apply_op: "config (apply_op op s) = config s"
proof (cases op)
  case (OpExec av meth prms opts)
  then show ?thesis by (simp add: config_exec)
next
  case (OpProxy av nargs)
  then show ?thesis by (simp add: proxy_def config_exec)
next
  case (OpNext av)
  then show ?thesis by (simp add: config_poolNext)
next
  case (OpGetWorker av aff)
  then show ?thesis
    using config_getWorker [of av aff s] by (cases "getWorker av aff s") simp
next
  case OpEnsureMinWorkers
  then show ?thesis by (simp add: config_ensureMinWorkers)
next
  case (OpRemoveWorker w)
  then show ?thesis by (simp add: config_removeWorker)
next
  case (OpExecFailed terminated w)
  then show ?thesis by (simp add: execFailed_def config_removeWorker)
next
  case (OpTerminateSettled w outcome)
  then show ?thesis
    by (simp add: terminate_settled_def removeWorkerFromList_def config_def Let_def
        split: sum.splits)
qed (simp_all add: config_def removeWorker_done_def terminate_def Let_def promiseTimeout_def
    settleQueued_def timerFired_def)

lemma config_run_ops: "config (run_ops ops s) = config s"
  unfolding run_ops_def by (induction ops arbitrary: s) (simp_all add: config_apply_op)

subsection \<open>The queue bound\<close>

text \<open>Facts that evaluate a construction, and a run of submissions, on given arguments.\<close>

lemmas Pool_eval =
  Pool_def initial_pool_def configuredMaxWorkers_def pool_args_def no_options_def
  validateMaxWorkers_def validateMinWorkers_def

lemmas submit_eval =
  run_ops_def exec_Str poolNext.simps getWorker_def chooseWorker_def pushWorker_eq
  taskAffinity_def dispatch_def Let_def

lemma maxQueueSize_Pool:
  assumes "Pool cpus arg1 options0 = Inr s0"
  shows "maxQueueSize s0 =
    (case opt_maxQueueSize (snd (pool_args arg1 options0)) of
       None \<Rightarrow> Infinity
     | Some n \<Rightarrow> if n = 0 then Infinity else Finite n)"
proof -
  obtain scr opts where pa: "pool_args arg1 options0 = (scr, opts)"
    by (cases "pool_args arg1 options0")
  have e: "maxQueueSize (ensureMinWorkers s) = maxQueueSize s" for s
    using config_ensureMinWorkers [of s] by (simp add: config_def)
  have "maxQueueSize s0 = maxQueueSize (initial_pool scr opts)"
    using assms pa
    by (auto simp: Pool_def e split: sum.splits option.splits if_splits)
  then show ?thesis
    using pa by (simp add: initial_pool_def)
qed

lemma exec_unbounded:
  assumes "maxQueueSize s = Infinity"
  shows "fst (exec av meth prms opts s) \<noteq> Inl (Error msg)"
proof (cases "truthy prms \<and> \<not> isArray prms")
  case True
  then show ?thesis by (simp add: exec_bad_params)
next
  case False
  have str: "fst (exec av (Str m) ps os s) \<noteq> Inl (Error msg)"
    if "\<not> (truthy ps \<and> \<not> isArray ps)" for m ps os
    using that assms by (simp add: exec_Str)
  show ?thesis
  proof (cases meth)
    case (Str m)
    with str [OF False] show ?thesis by simp
  next
    case (Fn src)
    with False str [of "Arr [Str src, prms]" "''run''" None] show ?thesis
      by (simp add: exec_Fn)
  qed (use False in \<open>simp_all add: exec_other\<close>)
qed

lemma full_pool_reached:
  "\<exists>s0. Pool None (ArgOptions (no_options\<lparr>opt_maxQueueSize := Some 1,
            opt_maxWorkers := Some (Num 1)\<rparr>)) None = Inr s0 \<and>
     run_ops [OpExec (\<lambda>w. False) (Str ''a'') Undefined None,
              OpExec (\<lambda>w. False) (Str ''b'') Undefined None] s0 = full_pool"
  by (simp add: Pool_eval submit_eval full_pool_def)

text \<open>
  Claim C7. When the method is a string, \<open>params\<close> passes the check of its shape and the
  queue holds at least \<open>maxQueueSize\<close> tasks, \<open>exec\<close> throws
  \<open>Error("Max queue size of N reached")\<close>, \<open>N\<close> being \<open>maxQueueSize\<close>, and the pool (its
  queue included) is as it was.
\<close>

theorem exec_queue_overflow:
  assumes "\<not> (truthy prms \<and> \<not> isArray prms)"
    and "maxQueueSize s = Finite n"
    and "n \<le> int (length (tasks s))"
  shows "exec av (Str m) prms opts s =
           (Inl (Error (''Max queue size of '' @ show_int n @ '' reached'')), s)"
  using assms by (simp add: exec_Str)

theorem exec_queue_overflow_witness:
  "\<not> (truthy (Arr [Num 2]) \<and> \<not> isArray (Arr [Num 2])) \<and> maxQueueSize full_pool = Finite 1 \<and>
   1 \<le> int (length (tasks full_pool)) \<and>
   exec (\<lambda>w. True) (Str ''add'') (Arr [Num 2]) None full_pool =
     (Inl (Error ''Max queue size of 1 reached''), full_pool)"
proof -
  have a: "\<not> (truthy (Arr [Num 2]) \<and> \<not> isArray (Arr [Num 2]))" by simp
  have b: "maxQueueSize full_pool = Finite 1" by (simp add: full_pool_def)
  have c: "1 \<le> int (length (tasks full_pool))" by (simp add: full_pool_def)
  have d: "show_int 1 = ''1''" by (simp add: show_int_def show_nat.simps)
  from exec_queue_overflow [OF a b c, of "\<lambda>w. True" "''add''" None] a b c d show ?thesis
    by simp
qed

text \<open>
  Claim C10. A pool constructed with \<open>maxQueueSize: 0\<close> has the bound \<open>Infinity\<close>, it keeps
  it whatever happens to the pool afterwards, and \<open>exec\<close> on such a pool never throws an
  \<open>Error\<close> (the overflow error is the only one it has): a submission of a method name
  returns a future.
\<close>

theorem maxQueueSize_zero_unbounded:
  assumes "Pool cpus arg1 options0 = Inr s0"
    and "opt_maxQueueSize (snd (pool_args arg1 options0)) = Some 0"
  shows "maxQueueSize (run_ops ops s0) = Infinity \<and>
         (\<forall>av meth prms opts msg.
            fst (exec av meth prms opts (run_ops ops s0)) \<noteq> Inl (Error msg)) \<and>
         (\<forall>av m opts. fst (exec av (Str m) Undefined opts (run_ops ops s0)) =
            Inr (freshTask (run_ops ops s0)))"
proof -
  have "maxQueueSize s0 = Infinity"
    using maxQueueSize_Pool [OF assms(1)] assms(2) by simp
  moreover have "maxQueueSize (run_ops ops s0) = maxQueueSize s0"
    using config_run_ops [of ops s0] by (simp add: config_def)
  ultimately have inf: "maxQueueSize (run_ops ops s0) = Infinity" by simp
  then show ?thesis
    by (simp add: exec_unbounded exec_Str)
qed

theorem maxQueueSize_zero_unbounded_witness:
  "Pool None (ArgOptions unbounded_options) None = Inr unbounded_pool \<and>
   opt_maxQueueSize (snd (pool_args (ArgOptions unbounded_options) None)) = Some 0 \<and>
   maxQueueSize
     (run_ops [OpExec (\<lambda>w. False) (Str ''a'') Undefined None,
               OpExec (\<lambda>w. False) (Str ''b'') Undefined None] unbounded_pool) = Infinity \<and>
   fst (exec (\<lambda>w. False) (Str ''c'') Undefined None
     (run_ops [OpExec (\<lambda>w. False) (Str ''a'') Undefined None,
               OpExec (\<lambda>w. False) (Str ''b'') Undefined None] unbounded_pool)) \<noteq>
     Inl (Error ''Max queue size of 0 reached'')"
proof -
  have c: "Pool None (ArgOptions unbounded_options) None = Inr unbounded_pool"
    by (simp add: Pool_eval unbounded_options_def unbounded_pool_def)
  have z: "opt_maxQueueSize (snd (pool_args (ArgOptions unbounded_options) None)) = Some 0"
    by (simp add: pool_args_def unbounded_options_def)
  from maxQueueSize_zero_unbounded [OF c z] c z show ?thesis
    by blast
qed

subsection \<open>Choosing and growing\<close>

lemma ensureLoop_eq:
  "ensureLoop i m s =
     s\<lparr>freshWorker := freshWorker s + nat (m - int i),
       trace := trace s @ map CreateWorker [freshWorker s ..< freshWorker s + nat (m - int i)],
       workers := workers s @ [freshWorker s ..< freshWorker s + nat (m - int i)]\<rparr>"
proof (induction i m s rule: ensureLoop.induct)
  case (1 i m s)
  show ?case
  proof (cases "int i < m")
    case True
    then have k: "nat (m - int i) = Suc (nat (m - int (Suc i)))"
      by simp
    show ?thesis
      unfolding ensureLoop_step [OF True] "1.IH" [OF True] k
      by (simp add: pushWorker_eq upt_conv_Cons)
  next
    case False
    then show ?thesis by (simp add: ensureLoop_stop)
  qed
qed

lemma ensureMinWorkers_eq:
  "ensureMinWorkers s =
     (case minWorkers s of
        None \<Rightarrow> s
      | Some m \<Rightarrow>
          s\<lparr>freshWorker := freshWorker s + nat (m - int (length (workers s))),
            trace := trace s @ map CreateWorker
              [freshWorker s ..< freshWorker s + nat (m - int (length (workers s)))],
            workers := workers s @
              [freshWorker s ..< freshWorker s + nat (m - int (length (workers s)))]\<rparr>)"
  by (simp add: ensureMinWorkers_def ensureLoop_eq split: option.splits)

lemma chooseWorker_member:
  assumes "chooseWorker av aff s = (Some c, s1)"
  shows "c \<in> set (workers s)"
proof -
  have at: "worker_at ws i = Some c \<Longrightarrow> c \<in> set ws" for ws i
    by (auto simp: worker_at_def split: if_splits)
  have fnd: "find av ws = Some c \<Longrightarrow> c \<in> set ws" for ws
    by (auto simp: find_Some_iff)
  from assms show ?thesis
    by (auto simp: chooseWorker_def Let_def split: option.splits if_splits dest: at fnd)
qed

lemma chooseWorker_frame:
  assumes "chooseWorker av aff s = (c, s1)"
  shows "workers s1 = workers s" "trace s1 = trace s" "freshWorker s1 = freshWorker s"
    "canCreateWorker s1 = canCreateWorker s"
  using assms by (auto simp: chooseWorker_def Let_def split: if_splits)

lemma growing_pool_reached:
  "\<exists>s0. Pool None (ArgOptions (no_options\<lparr>opt_maxWorkers := Some (Num 2)\<rparr>)) None = Inr s0 \<and>
     run_ops [OpExec (\<lambda>w. False) (Str ''a'') Undefined None] s0 = growing_pool"
  by (simp add: Pool_eval submit_eval growing_pool_def)

text \<open>
  Claim C4. With fewer than \<open>maxWorkers\<close> workers and \<open>gradualScaling\<close> equal to 0,
  \<open>_getWorker\<close> creates a worker and appends it to the tail of the list, whatever the
  selection chain chose; the new worker is returned when the chain chose none, and a
  worker the chain chose (one of the list as it was, available or not) is returned
  otherwise.
\<close>

theorem getWorker_grows_after_choice:
  assumes "int (length (workers s)) < maxWorkers s" and "gradualScaling s = 0"
  shows "workers (snd (getWorker av aff s)) = workers s @ [freshWorker s] \<and>
         trace (snd (getWorker av aff s)) = trace s @ [CreateWorker (freshWorker s)] \<and>
         (fst (chooseWorker av aff s) = None \<longrightarrow>
            fst (getWorker av aff s) = Some (freshWorker s)) \<and>
         (\<forall>c. fst (chooseWorker av aff s) = Some c \<longrightarrow>
            fst (getWorker av aff s) = Some c \<and> c \<in> set (workers s))"
proof -
  obtain chosen s1 where ch: "chooseWorker av aff s = (chosen, s1)"
    by (cases "chooseWorker av aff s")
  have cfg: "maxWorkers s1 = maxWorkers s" "gradualScaling s1 = gradualScaling s"
    using config_chooseWorker [OF ch] by (simp_all add: config_def)
  note fr = chooseWorker_frame [OF ch]
  have g: "getWorker av aff s = (orWorker chosen (freshWorker s), snd (pushWorker s1))"
    using assms ch cfg fr by (simp add: getWorker_def pushWorker_eq)
  have mem: "c \<in> set (workers s)" if "chosen = Some c" for c
    using chooseWorker_member [of av aff s c s1] ch that by simp
  show ?thesis
    using g ch fr mem by (cases chosen) (simp_all add: pushWorker_eq)
qed

theorem getWorker_grows_after_choice_witness:
  "int (length (workers growing_pool)) < maxWorkers growing_pool \<and>
   gradualScaling growing_pool = 0 \<and>
   fst (chooseWorker (\<lambda>w. False) (Some 0) growing_pool) = Some 0 \<and>
   fst (getWorker (\<lambda>w. False) (Some 0) growing_pool) = Some 0 \<and>
   workers (snd (getWorker (\<lambda>w. False) (Some 0) growing_pool)) = [0, 1] \<and>
   fst (chooseWorker (\<lambda>w. False) None growing_pool) = None \<and>
   fst (getWorker (\<lambda>w. False) None growing_pool) = Some 1"
proof -
  have a: "int (length (workers growing_pool)) < maxWorkers growing_pool"
    by (simp add: growing_pool_def)
  have b: "gradualScaling growing_pool = 0"
    by (simp add: growing_pool_def)
  have c: "fst (chooseWorker (\<lambda>w. False) (Some 0) growing_pool) = Some 0"
    by (simp add: chooseWorker_def growing_pool_def js_rem_def worker_at_def)
  have d: "fst (chooseWorker (\<lambda>w. False) None growing_pool) = None"
    by (simp add: chooseWorker_def growing_pool_def)
  have e: "workers growing_pool = [0]" "freshWorker growing_pool = 1"
    by (simp_all add: growing_pool_def)
  from getWorker_grows_after_choice [OF a b, of "\<lambda>w. False" "Some 0"]
    getWorker_grows_after_choice [OF a b, of "\<lambda>w. False" None] a b c d e
  show ?thesis by simp
qed

lemma pair_pool_constructed:
  "Pool None (ArgOptions (no_options\<lparr>opt_maxWorkers := Some (Num 2),
     opt_minWorkers := Some (Str ''max'')\<rparr>)) None = Inr pair_pool"
  by (simp add: Pool_eval ensureMinWorkers_eq pair_pool_def upt_conv_Cons)

lemma js_rem_nonneg: "0 \<le> a \<Longrightarrow> js_rem a n = a mod n"
  by (simp add: js_rem_def)

text \<open>
  Claim C3, amended. With at least one worker and an affinity \<open>a\<close> that is not negative,
  \<open>_getWorker\<close> returns \<open>workers[a mod |workers|]\<close> whatever \<open>available()\<close> answers and
  whether or not round robin is on, and the round-robin cursor does not move.
\<close>

theorem getWorker_affinity:
  assumes "workers s \<noteq> []" and "0 \<le> a"
  shows "fst (getWorker av (Some a) s) = Some (workers s ! nat (a mod int (length (workers s)))) \<and>
         lastChosen (snd (getWorker av (Some a) s)) = lastChosen s"
proof -
  let ?n = "int (length (workers s))"
  let ?w = "workers s ! nat (a mod ?n)"
  have n: "0 < ?n" using assms(1) by simp
  then have "0 \<le> a mod ?n" "a mod ?n < ?n"
    by simp_all
  then have at: "worker_at (workers s) (js_rem a ?n) = Some ?w"
    using assms(2) by (simp add: worker_at_def js_rem_nonneg)
  have ch: "chooseWorker av (Some a) s = (Some ?w, s)"
    using assms(1) at by (simp add: chooseWorker_def Let_def)
  show ?thesis
    by (simp add: getWorker_def ch pushWorker_eq)
qed

theorem getWorker_affinity_witness:
  "workers pair_pool \<noteq> [] \<and> (0::int) \<le> 3 \<and>
   fst (getWorker (\<lambda>w. False) (Some 3) (pair_pool\<lparr>roundrobin := True\<rparr>)) = Some 1 \<and>
   lastChosen (snd (getWorker (\<lambda>w. False) (Some 3) (pair_pool\<lparr>roundrobin := True\<rparr>))) = - 1"
proof -
  have a: "workers (pair_pool\<lparr>roundrobin := True\<rparr>) \<noteq> []" by (simp add: pair_pool_def)
  have b: "(0::int) \<le> 3" by simp
  from getWorker_affinity [OF a b, of "\<lambda>w. False"] show ?thesis
    by (simp add: pair_pool_def)
qed

text \<open>
  The claim as stated fails for a negative affinity: \<open>-1 % 2\<close> is \<open>-1\<close>, \<open>workers[-1]\<close> is
  \<open>undefined\<close>, and the first available worker is taken instead of \<open>workers[1]\<close>.
\<close>

theorem getWorker_negative_affinity:
  "fst (getWorker all_available (Some (- 1)) pair_pool) = Some 0 \<and>
   workers pair_pool ! nat ((- 1) mod int (length (workers pair_pool))) = 1"
proof -
  have "worker_at [0, 1] (js_rem (- 1) 2) = None"
    by (simp add: js_rem_def worker_at_def)
  moreover have "find all_available [0, 1] = Some 0"
    by (simp add: all_available_def)
  ultimately show ?thesis
    by (simp add: getWorker_def chooseWorker_def pair_pool_def)
qed

subsection \<open>The scaling gate\<close>

lemma gate_getWorker:
  "getWorker av aff s = (r, s2) \<Longrightarrow> \<not> canCreateWorker s \<Longrightarrow> \<not> canCreateWorker s2"
  by (auto simp: getWorker_def pushWorker_eq split: prod.splits if_splits
      dest!: chooseWorker_frame(4))

lemma gate_ensureMinWorkers: "canCreateWorker (ensureMinWorkers s) = canCreateWorker s"
  by (simp add: ensureMinWorkers_eq split: option.splits)

lemma gate_removeWorker: "canCreateWorker (removeWorker w s) = canCreateWorker s"
  by (simp add: removeWorker_def Let_def gate_ensureMinWorkers removeWorkerFromList_def)

lemma gate_dispatch: "canCreateWorker (dispatch w t s) = canCreateWorker s"
  by (simp add: dispatch_def Let_def split: jsval.splits)

lemma gate_poolNext: "\<not> canCreateWorker s \<Longrightarrow> \<not> canCreateWorker (poolNext av s)"
  by (rule poolNext_preserves [where P = "\<lambda>s'. \<not> canCreateWorker s'"])
    (auto simp: gate_dispatch dest: gate_getWorker)

lemma gate_exec: "\<not> canCreateWorker s \<Longrightarrow> \<not> canCreateWorker (snd (exec av meth prms opts s))"
  by (rule exec_preserves [where P = "\<lambda>s'. \<not> canCreateWorker s'"])
    (auto dest: gate_poolNext)

lemma gate_apply_op:
  assumes "op \<noteq> OpTimerFired" and "\<not> canCreateWorker s"
  shows "\<not> canCreateWorker (apply_op op s)"
proof (cases op)
  case (OpExec av meth prms opts)
  with assms(2) show ?thesis by (simp add: gate_exec)
next
  case (OpProxy av nargs)
  with assms(2) show ?thesis by (simp add: proxy_def gate_exec)
next
  case (OpNext av)
  with assms(2) show ?thesis by (simp add: gate_poolNext)
next
  case (OpGetWorker av aff)
  with assms(2) show ?thesis
    using gate_getWorker [of av aff s] by (cases "getWorker av aff s") simp
next
  case (OpTerminateSettled w outcome)
  with assms(2) show ?thesis
    by (simp add: terminate_settled_def removeWorkerFromList_def Let_def split: sum.splits)
next
  case OpTimerFired
  with assms(1) show ?thesis by simp
qed (use assms(2) in \<open>simp_all add: gate_ensureMinWorkers gate_removeWorker execFailed_def
    removeWorker_done_def terminate_def Let_def promiseTimeout_def settleQueued_def\<close>)

lemma gated_pool_reached:
  "\<exists>s0. Pool None (ArgOptions (no_options\<lparr>opt_gradualScaling := Some 1000,
            opt_maxWorkers := Some (Num 3)\<rparr>)) None = Inr s0 \<and>
     run_ops [OpExec (\<lambda>w. False) (Str ''a'') Undefined None] s0 = gated_pool"
  by (simp add: Pool_eval submit_eval gated_pool_def)

text \<open>
  Claim C9. With \<open>gradualScaling > 0\<close>: when the gate \<open>canCreateWorker\<close> is false,
  \<open>_getWorker\<close> creates no worker, also below \<open>maxWorkers\<close>; when the gate is true and
  there is room, it appends one worker, sets the gate to false and starts the timer with
  delay \<open>gradualScaling\<close> in the same step; no operation but the callback of that timer
  sets a false gate to true; and \<open>_ensureMinWorkers\<close> creates the workers missing up to
  \<open>minWorkers\<close> whatever the gate says, without touching the gate or starting a timer.
\<close>

theorem gradual_scaling_gate:
  "(0 < gradualScaling sa \<and> \<not> canCreateWorker sa \<longrightarrow>
      workers (snd (getWorker av aff sa)) = workers sa \<and>
      trace (snd (getWorker av aff sa)) = trace sa \<and>
      \<not> canCreateWorker (snd (getWorker av aff sa))) \<and>
   (0 < gradualScaling sb \<and> canCreateWorker sb \<and> int (length (workers sb)) < maxWorkers sb \<longrightarrow>
      workers (snd (getWorker av aff sb)) = workers sb @ [freshWorker sb] \<and>
      trace (snd (getWorker av aff sb)) =
        trace sb @ [SetTimeout (gradualScaling sb), CreateWorker (freshWorker sb)] \<and>
      \<not> canCreateWorker (snd (getWorker av aff sb))) \<and>
   (op \<noteq> OpTimerFired \<and> \<not> canCreateWorker sc \<longrightarrow> \<not> canCreateWorker (apply_op op sc)) \<and>
   canCreateWorker (apply_op OpTimerFired sc) \<and>
   (minWorkers sd = Some m \<and> int (length (workers sd)) < m \<longrightarrow>
      workers (ensureMinWorkers sd) =
        workers sd @ [freshWorker sd ..< freshWorker sd + nat (m - int (length (workers sd)))] \<and>
      trace (ensureMinWorkers sd) =
        trace sd @ map CreateWorker
          [freshWorker sd ..< freshWorker sd + nat (m - int (length (workers sd)))] \<and>
      canCreateWorker (ensureMinWorkers sd) = canCreateWorker sd)"
proof -
  have closed: "workers (snd (getWorker av aff sa)) = workers sa \<and>
      trace (snd (getWorker av aff sa)) = trace sa \<and>
      \<not> canCreateWorker (snd (getWorker av aff sa))"
    if "0 < gradualScaling sa" "\<not> canCreateWorker sa"
  proof -
    obtain chosen s1 where ch: "chooseWorker av aff sa = (chosen, s1)"
      by (cases "chooseWorker av aff sa")
    have "gradualScaling s1 = gradualScaling sa"
      using config_chooseWorker [OF ch] by (simp add: config_def)
    with that chooseWorker_frame [OF ch] ch show ?thesis
      by (simp add: getWorker_def)
  qed
  have opened: "workers (snd (getWorker av aff sb)) = workers sb @ [freshWorker sb] \<and>
      trace (snd (getWorker av aff sb)) =
        trace sb @ [SetTimeout (gradualScaling sb), CreateWorker (freshWorker sb)] \<and>
      \<not> canCreateWorker (snd (getWorker av aff sb))"
    if "0 < gradualScaling sb" "canCreateWorker sb" "int (length (workers sb)) < maxWorkers sb"
  proof -
    obtain chosen s1 where ch: "chooseWorker av aff sb = (chosen, s1)"
      by (cases "chooseWorker av aff sb")
    have "gradualScaling s1 = gradualScaling sb" "maxWorkers s1 = maxWorkers sb"
      using config_chooseWorker [OF ch] by (simp_all add: config_def)
    with that chooseWorker_frame [OF ch] ch show ?thesis
      by (simp add: getWorker_def pushWorker_eq)
  qed
  have timer: "canCreateWorker (apply_op OpTimerFired sc)"
    by (simp add: timerFired_def)
  have ensure: "workers (ensureMinWorkers sd) =
        workers sd @ [freshWorker sd ..< freshWorker sd + nat (m - int (length (workers sd)))] \<and>
      trace (ensureMinWorkers sd) =
        trace sd @ map CreateWorker
          [freshWorker sd ..< freshWorker sd + nat (m - int (length (workers sd)))] \<and>
      canCreateWorker (ensureMinWorkers sd) = canCreateWorker sd"
    if "minWorkers sd = Some m"
    using that by (simp add: ensureMinWorkers_eq)
  from closed opened timer ensure gate_apply_op [of op sc] show ?thesis
    by blast
qed

theorem gradual_scaling_gate_witness:
  "0 < gradualScaling gated_pool \<and> \<not> canCreateWorker gated_pool \<and>
   int (length (workers gated_pool)) < maxWorkers gated_pool \<and>
   workers (snd (getWorker (\<lambda>w. False) None gated_pool)) = [0] \<and>
   canCreateWorker (timerFired gated_pool) \<and>
   workers (snd (getWorker (\<lambda>w. False) None (timerFired gated_pool))) = [0, 1] \<and>
   \<not> canCreateWorker (snd (getWorker (\<lambda>w. False) None (timerFired gated_pool))) \<and>
   \<not> canCreateWorker (apply_op (OpNext (\<lambda>w. True)) gated_pool) \<and>
   minWorkers (gated_pool\<lparr>minWorkers := Some 3\<rparr>) = Some 3 \<and>
   workers (ensureMinWorkers (gated_pool\<lparr>minWorkers := Some 3\<rparr>)) = [0, 1, 2] \<and>
   \<not> canCreateWorker (ensureMinWorkers (gated_pool\<lparr>minWorkers := Some 3\<rparr>))"
proof -
  have g: "0 < gradualScaling gated_pool" "\<not> canCreateWorker gated_pool"
    "int (length (workers gated_pool)) < maxWorkers gated_pool"
    "workers gated_pool = [0]" "freshWorker gated_pool = 1"
    by (simp_all add: gated_pool_def)
  have t: "0 < gradualScaling (timerFired gated_pool)" "canCreateWorker (timerFired gated_pool)"
    "int (length (workers (timerFired gated_pool))) < maxWorkers (timerFired gated_pool)"
    "workers (timerFired gated_pool) = [0]" "freshWorker (timerFired gated_pool) = 1"
    by (simp_all add: gated_pool_def timerFired_def)
  have m: "minWorkers (gated_pool\<lparr>minWorkers := Some 3\<rparr>) = Some 3"
    "int (length (workers (gated_pool\<lparr>minWorkers := Some 3\<rparr>))) < 3"
    "workers (gated_pool\<lparr>minWorkers := Some 3\<rparr>) = [0]"
    "freshWorker (gated_pool\<lparr>minWorkers := Some 3\<rparr>) = 1"
    "\<not> canCreateWorker (gated_pool\<lparr>minWorkers := Some 3\<rparr>)"
    by (simp_all add: gated_pool_def)
  have u: "[1 ..< 1 + nat (3 - int (length [0::nat]))] = [1, 2]"
    by (simp add: upt_conv_Cons)
  have o: "OpNext (\<lambda>w. True) \<noteq> OpTimerFired" by simp
  from gradual_scaling_gate [of gated_pool "\<lambda>w. False" None "timerFired gated_pool"
      "OpNext (\<lambda>w. True)" gated_pool "gated_pool\<lparr>minWorkers := Some 3\<rparr>" 3] g t m u o
  show ?thesis by simp
qed

subsection \<open>Tasks settled or timed while queued\<close>

lemma queue_pool_reached:
  "\<exists>s0. Pool None (ArgOptions (no_options\<lparr>opt_maxWorkers := Some (Num 1)\<rparr>)) None = Inr s0 \<and>
     run_ops [OpExec (\<lambda>w. False) (Str ''a'') Undefined None,
              OpExec (\<lambda>w. False) (Str ''b'') Undefined None,
              OpExec (\<lambda>w. False) (Str ''c'') (Arr [Num 1]) None,
              OpSettleQueued 1,
              OpPromiseTimeout 2 (Num 50)] s0 = queue_pool"
  by (simp add: Pool_eval submit_eval queue_pool_def cancelled_task_def timed_task_def
      settleQueued_def promiseTimeout_def)

lemma poolNext_Nil: "tasks s = [] \<Longrightarrow> poolNext av s = s"
  by (simp add: poolNext.simps [of av s])

lemma poolNext_Cons:
  assumes "tasks s = t # ts" and "getWorker av (taskAffinity t) s = (r, s1)"
  shows "poolNext av s =
     (case r of
        None \<Rightarrow> s1
      | Some w \<Rightarrow>
          if pending t then dispatch w t (s1\<lparr>tasks := ts\<rparr>)
          else poolNext av (s1\<lparr>tasks := ts\<rparr>))"
proof -
  have "tasks s1 = t # ts"
    using tasks_getWorker [OF assms(2)] assms(1) by simp
  with assms show ?thesis
    by (cases r) (simp_all add: poolNext.simps [of av s])
qed

lemma execs_getWorker:
  assumes "getWorker av aff s = (r, s2)" and "WorkerExec w u \<in> set (trace s2)"
  shows "WorkerExec w u \<in> set (trace s)"
proof -
  obtain chosen s1 where ch: "chooseWorker av aff s = (chosen, s1)"
    by (cases "chooseWorker av aff s")
  from assms ch chooseWorker_frame(2) [OF ch] show ?thesis
    by (auto simp: getWorker_def pushWorker_eq split: if_splits)
qed

lemma execs_dispatch:
  "WorkerExec w u \<in> set (trace (dispatch v t s)) \<Longrightarrow>
   WorkerExec w u \<in> set (trace s) \<or> (w = v \<and> u = t)"
  by (auto simp: dispatch_def Let_def split: jsval.splits)

lemma execs_poolNext:
  assumes "WorkerExec w u \<in> set (trace (poolNext av s))"
  shows "WorkerExec w u \<in> set (trace s) \<or> pending u"
proof -
  have "\<forall>w u. WorkerExec w u \<in> set (trace (poolNext av s)) \<longrightarrow>
          WorkerExec w u \<in> set (trace s) \<or> pending u"
  proof (rule poolNext_preserves
      [where P = "\<lambda>s'. \<forall>w u. WorkerExec w u \<in> set (trace s') \<longrightarrow>
                          WorkerExec w u \<in> set (trace s) \<or> pending u"])
    fix av aff and s' :: pool and r s1
    assume "\<forall>w u. WorkerExec w u \<in> set (trace s') \<longrightarrow> WorkerExec w u \<in> set (trace s) \<or> pending u"
      and "getWorker av aff s' = (r, s1)"
    then show "\<forall>w u. WorkerExec w u \<in> set (trace s1) \<longrightarrow> WorkerExec w u \<in> set (trace s) \<or> pending u"
      by (blast dest: execs_getWorker)
  next
    fix v and t :: task and s' :: pool
    assume "\<forall>w u. WorkerExec w u \<in> set (trace s') \<longrightarrow> WorkerExec w u \<in> set (trace s) \<or> pending u"
      and "pending t"
    then show "\<forall>w u. WorkerExec w u \<in> set (trace (dispatch v t s')) \<longrightarrow>
                 WorkerExec w u \<in> set (trace s) \<or> pending u"
      by (blast dest: execs_dispatch)
  qed simp_all
  with assms show ?thesis by blast
qed

text \<open>
  Claim C5, amended. A task whose future is no longer pending when it is at the head of
  the queue is never handed to a worker: every \<open>worker.exec\<close> that a run of \<open>_next\<close> adds
  is for a task that is pending. When \<open>_getWorker\<close> returns a worker for it, \<open>_next\<close> takes
  the task off the queue, makes no call of \<open>worker.exec\<close> for it and runs \<open>_next\<close> again on
  the rest at once; when \<open>_getWorker\<close> returns none, \<open>_next\<close> returns what \<open>_getWorker\<close>
  left, with the task still at the head.
\<close>

theorem settled_task_never_dispatched:
  assumes "tasks s = t # ts" and "\<not> pending t"
  shows "poolNext av s =
           (case getWorker av (taskAffinity t) s of
              (None, s1) \<Rightarrow> s1
            | (Some w, s1) \<Rightarrow> poolNext av (s1\<lparr>tasks := ts\<rparr>)) \<and>
         (\<forall>w. WorkerExec w t \<in> set (trace (poolNext av s)) \<longrightarrow> WorkerExec w t \<in> set (trace s)) \<and>
         (\<forall>w u. WorkerExec w u \<in> set (trace (poolNext av s)) \<longrightarrow>
            WorkerExec w u \<in> set (trace s) \<or> pending u)"
proof -
  obtain r s1 where g: "getWorker av (taskAffinity t) s = (r, s1)"
    by (cases "getWorker av (taskAffinity t) s")
  have "poolNext av s =
           (case getWorker av (taskAffinity t) s of
              (None, s1) \<Rightarrow> s1
            | (Some w, s1) \<Rightarrow> poolNext av (s1\<lparr>tasks := ts\<rparr>))"
    using poolNext_Cons [OF assms(1) g] assms(2) g by (cases r) simp_all
  moreover have "WorkerExec w u \<in> set (trace (poolNext av s)) \<longrightarrow>
      WorkerExec w u \<in> set (trace s) \<or> pending u" for w u
    using execs_poolNext [of w u av s] by blast
  ultimately show ?thesis using assms(2) by blast
qed

theorem settled_task_never_dispatched_witness:
  "tasks queue_pool = cancelled_task # [timed_task] \<and> \<not> pending cancelled_task \<and>
   getWorker (\<lambda>w. True) (taskAffinity cancelled_task) queue_pool = (Some 0, queue_pool) \<and>
   poolNext (\<lambda>w. True) queue_pool = poolNext (\<lambda>w. True) (queue_pool\<lparr>tasks := [timed_task]\<rparr>) \<and>
   poolNext (\<lambda>w. True) queue_pool =
     queue_pool\<lparr>tasks := [],
       trace := trace queue_pool @ [WorkerExec 0 timed_task, ExecTimeout 2 50]\<rparr> \<and>
   (\<forall>w. WorkerExec w cancelled_task \<notin> set (trace (poolNext (\<lambda>w. True) queue_pool)))"
proof -
  have a: "tasks queue_pool = cancelled_task # [timed_task]"
    by (simp add: queue_pool_def)
  have b: "\<not> pending cancelled_task"
    by (simp add: cancelled_task_def)
  have g: "getWorker (\<lambda>w. True) None s = (Some 0, s)"
    if "workers s = [0]" "maxWorkers s = 1" "roundrobin s = False" for s
    using that by (simp add: getWorker_def chooseWorker_def)
  have g1: "getWorker (\<lambda>w. True) (taskAffinity cancelled_task) queue_pool = (Some 0, queue_pool)"
    by (simp add: taskAffinity_def cancelled_task_def g queue_pool_def)
  have n: "poolNext (\<lambda>w. True) (queue_pool\<lparr>tasks := [timed_task]\<rparr>) =
      queue_pool\<lparr>tasks := [],
        trace := trace queue_pool @ [WorkerExec 0 timed_task, ExecTimeout 2 50]\<rparr>"
  proof -
    have q: "tasks (queue_pool\<lparr>tasks := [timed_task]\<rparr>) = timed_task # []"
      by simp
    have g2: "getWorker (\<lambda>w. True) (taskAffinity timed_task) (queue_pool\<lparr>tasks := [timed_task]\<rparr>) =
        (Some 0, queue_pool\<lparr>tasks := [timed_task]\<rparr>)"
      by (simp add: taskAffinity_def timed_task_def g queue_pool_def)
    show ?thesis
      unfolding poolNext_Cons [OF q g2]
      by (simp add: dispatch_def timed_task_def)
  qed
  have old: "WorkerExec w cancelled_task \<notin> set (trace queue_pool)" for w
    by (simp add: queue_pool_def cancelled_task_def)
  note drop = settled_task_never_dispatched [OF a b, of "\<lambda>w. True"]
  have c1: "poolNext (\<lambda>w. True) queue_pool =
      poolNext (\<lambda>w. True) (queue_pool\<lparr>tasks := [timed_task]\<rparr>)"
    using drop g1 by simp
  have c2: "poolNext (\<lambda>w. True) queue_pool =
      queue_pool\<lparr>tasks := [],
        trace := trace queue_pool @ [WorkerExec 0 timed_task, ExecTimeout 2 50]\<rparr>"
    using c1 n by simp
  have c3: "\<forall>w. WorkerExec w cancelled_task \<notin> set (trace (poolNext (\<lambda>w. True) queue_pool))"
    using drop old by blast
  from a b g1 c1 c2 c3 show ?thesis
    by blast
qed

text \<open>
  The claim as stated fails when no worker can be had: with the only worker busy and
  \<open>maxWorkers\<close> reached, \<open>_getWorker\<close> returns nothing, and \<open>_next\<close> returns at line 229
  with the settled task still at the head of the queue; it is not popped and \<open>_next\<close> is
  not run again.
\<close>

theorem settled_head_not_popped:
  "tasks queue_pool = [cancelled_task, timed_task] \<and> \<not> pending cancelled_task \<and>
   fst (getWorker none_available (taskAffinity cancelled_task) queue_pool) = None \<and>
   poolNext none_available queue_pool = queue_pool"
proof -
  have a: "tasks queue_pool = cancelled_task # [timed_task]"
    by (simp add: queue_pool_def)
  have b: "\<not> pending cancelled_task"
    by (simp add: cancelled_task_def)
  have g: "getWorker none_available (taskAffinity cancelled_task) queue_pool = (None, queue_pool)"
    by (simp add: getWorker_def chooseWorker_def taskAffinity_def cancelled_task_def
        queue_pool_def none_available_def)
  have n: "poolNext none_available queue_pool = queue_pool"
    unfolding poolNext_Cons [OF a g] by simp
  from a b g n show ?thesis
    by simp
qed

text \<open>
  Claim C6. The \<open>timeout\<close> method that \<open>exec\<close> puts on the future of a task: while the
  task is in the queue, a call records the delay on the task, arms nothing and returns
  the same future; once the task has left the queue, the call goes to the original
  \<open>timeout\<close> of the future. When \<open>_next\<close> hands a pending task to a worker, a recorded
  delay (a number) is armed right after \<open>worker.exec\<close>, on the future of the execution; a
  task with no recorded delay gets no timer.
\<close>

theorem deferred_timeout:
  "(p \<in> set (map tid (tasks sq)) \<longrightarrow>
      promiseTimeout p delay sq =
        (ReturnsPromise p,
         sq\<lparr>tasks := map (\<lambda>t. if tid t = p then t\<lparr>timeout := delay\<rparr> else t) (tasks sq)\<rparr>) \<and>
      trace (snd (promiseTimeout p delay sq)) = trace sq) \<and>
   (p \<notin> set (map tid (tasks sn)) \<longrightarrow>
      promiseTimeout p delay sn =
        (ReturnsNative, sn\<lparr>trace := trace sn @ [NativeTimeout p delay]\<rparr>)) \<and>
   (tasks sd = t # ts \<and> pending t \<and> getWorker av (taskAffinity t) sd = (Some w, s1) \<longrightarrow>
      poolNext av sd =
        (case timeout t of
           Num d \<Rightarrow> s1\<lparr>tasks := ts, trace := trace s1 @ [WorkerExec w t, ExecTimeout (tid t) d]\<rparr>
         | _ \<Rightarrow> s1\<lparr>tasks := ts, trace := trace s1 @ [WorkerExec w t]\<rparr>))"
proof -
  have queued: "promiseTimeout p delay sq =
        (ReturnsPromise p,
         sq\<lparr>tasks := map (\<lambda>t. if tid t = p then t\<lparr>timeout := delay\<rparr> else t) (tasks sq)\<rparr>) \<and>
      trace (snd (promiseTimeout p delay sq)) = trace sq"
    if "p \<in> set (map tid (tasks sq))"
    using that by (simp add: promiseTimeout_def)
  have gone: "promiseTimeout p delay sn =
        (ReturnsNative, sn\<lparr>trace := trace sn @ [NativeTimeout p delay]\<rparr>)"
    if "p \<notin> set (map tid (tasks sn))"
    using that by (simp add: promiseTimeout_def)
  have armed: "poolNext av sd =
        (case timeout t of
           Num d \<Rightarrow> s1\<lparr>tasks := ts, trace := trace s1 @ [WorkerExec w t, ExecTimeout (tid t) d]\<rparr>
         | _ \<Rightarrow> s1\<lparr>tasks := ts, trace := trace s1 @ [WorkerExec w t]\<rparr>)"
    if "tasks sd = t # ts" "pending t" "getWorker av (taskAffinity t) sd = (Some w, s1)"
    unfolding poolNext_Cons [OF that(1) that(3)]
    using that(2) by (simp add: dispatch_def Let_def split: jsval.splits)
  from queued gone armed show ?thesis
    by blast
qed

theorem deferred_timeout_witness:
  "1 \<in> set (map tid (tasks full_pool)) \<and>
   fst (promiseTimeout 1 (Num 50) full_pool) = ReturnsPromise 1 \<and>
   map timeout (tasks (snd (promiseTimeout 1 (Num 50) full_pool))) = [Num 50] \<and>
   trace (snd (promiseTimeout 1 (Num 50) full_pool)) = trace full_pool \<and>
   0 \<notin> set (map tid (tasks full_pool)) \<and>
   promiseTimeout 0 (Num 50) full_pool =
     (ReturnsNative, full_pool\<lparr>trace := trace full_pool @ [NativeTimeout 0 (Num 50)]\<rparr>) \<and>
   tasks (queue_pool\<lparr>tasks := [timed_task]\<rparr>) = timed_task # [] \<and> pending timed_task \<and>
   getWorker (\<lambda>w. True) (taskAffinity timed_task) (queue_pool\<lparr>tasks := [timed_task]\<rparr>) =
     (Some 0, queue_pool\<lparr>tasks := [timed_task]\<rparr>) \<and>
   poolNext (\<lambda>w. True) (queue_pool\<lparr>tasks := [timed_task]\<rparr>) =
     queue_pool\<lparr>tasks := [],
       trace := trace queue_pool @ [WorkerExec 0 timed_task, ExecTimeout 2 50]\<rparr>"
proof -
  have a: "1 \<in> set (map tid (tasks full_pool))" "0 \<notin> set (map tid (tasks full_pool))"
    by (simp_all add: full_pool_def)
  have b: "tasks (queue_pool\<lparr>tasks := [timed_task]\<rparr>) = timed_task # []" "pending timed_task"
    by (simp_all add: timed_task_def)
  have c: "getWorker (\<lambda>w. True) (taskAffinity timed_task) (queue_pool\<lparr>tasks := [timed_task]\<rparr>) =
     (Some 0, queue_pool\<lparr>tasks := [timed_task]\<rparr>)"
    by (simp add: getWorker_def chooseWorker_def queue_pool_def taskAffinity_def timed_task_def)
  have d: "timeout timed_task = Num 50" "tid timed_task = 2"
    by (simp_all add: timed_task_def)
  note q = deferred_timeout [of 1 full_pool "Num 50"]
  note n = deferred_timeout [of 0 _ "Num 50" full_pool]
  note x = deferred_timeout [of _ _ _ _ "queue_pool\<lparr>tasks := [timed_task]\<rparr>" timed_task "[]"
      "\<lambda>w. True" 0 "queue_pool\<lparr>tasks := [timed_task]\<rparr>"]
  have r1: "fst (promiseTimeout 1 (Num 50) full_pool) = ReturnsPromise 1"
    "trace (snd (promiseTimeout 1 (Num 50) full_pool)) = trace full_pool"
    "map timeout (tasks (snd (promiseTimeout 1 (Num 50) full_pool))) = [Num 50]"
    using q a(1) by (simp_all add: full_pool_def)
  have r2: "promiseTimeout 0 (Num 50) full_pool =
     (ReturnsNative, full_pool\<lparr>trace := trace full_pool @ [NativeTimeout 0 (Num 50)]\<rparr>)"
    using n a(2) by simp
  have r3: "poolNext (\<lambda>w. True) (queue_pool\<lparr>tasks := [timed_task]\<rparr>) =
     queue_pool\<lparr>tasks := [],
       trace := trace queue_pool @ [WorkerExec 0 timed_task, ExecTimeout 2 50]\<rparr>"
    using x b c d by simp
  from a b c r1 r2 r3 show ?thesis
    by blast
qed

subsection \<open>The bound on the number of workers\<close>

lemma inv_ensureMinWorkers: "pool_inv s \<Longrightarrow> pool_inv (ensureMinWorkers s)"
  by (auto simp: pool_inv_def ensureMinWorkers_eq split: option.splits)

lemma configuredMaxWorkers_pos: "configuredMaxWorkers cpus opts = Inr mx \<Longrightarrow> 1 \<le> mx"
  by (auto simp: configuredMaxWorkers_def validateMaxWorkers_def
      split: option.splits jsval.splits if_splits)

lemma validateMinWorkers_nonneg: "validateMinWorkers v = Inr mn \<Longrightarrow> 0 \<le> mn"
  by (auto simp: validateMinWorkers_def split: jsval.splits if_splits)

lemma inv_Pool:
  assumes "Pool cpus arg1 options0 = Inr s0"
  shows "pool_inv s0"
proof -
  obtain scr opts where pa: "pool_args arg1 options0 = (scr, opts)"
    by (cases "pool_args arg1 options0")
  obtain mx where mx: "configuredMaxWorkers cpus opts = Inr mx"
    using assms pa by (cases "configuredMaxWorkers cpus opts") (simp_all add: Pool_def)
  have pos: "1 \<le> mx" using mx by (rule configuredMaxWorkers_pos)
  let ?init = "initial_pool scr opts"
  show ?thesis
  proof (cases "opt_minWorkers opts")
    case None
    with assms pa mx have "s0 = ?init\<lparr>maxWorkers := mx\<rparr>"
      by (simp add: Pool_def)
    with pos show ?thesis
      by (simp add: pool_inv_def initial_pool_def)
  next
    case (Some v)
    show ?thesis
    proof (cases "v = Str ''max''")
      case True
      with assms pa mx Some
      have "s0 = ensureMinWorkers (?init\<lparr>maxWorkers := mx, minWorkers := Some mx\<rparr>)"
        by (simp add: Pool_def)
      moreover have "pool_inv (?init\<lparr>maxWorkers := mx, minWorkers := Some mx\<rparr>)"
        using pos by (simp add: pool_inv_def initial_pool_def)
      ultimately show ?thesis by (simp add: inv_ensureMinWorkers)
    next
      case False
      with assms pa mx Some obtain mn where mn: "validateMinWorkers v = Inr mn"
        by (cases "validateMinWorkers v") (simp_all add: Pool_def)
      with assms pa mx Some False
      have "s0 = ensureMinWorkers (?init\<lparr>minWorkers := Some mn, maxWorkers := max mn mx\<rparr>)"
        by (simp add: Pool_def)
      moreover have "pool_inv (?init\<lparr>minWorkers := Some mn, maxWorkers := max mn mx\<rparr>)"
        using pos by (simp add: pool_inv_def initial_pool_def)
      ultimately show ?thesis by (simp add: inv_ensureMinWorkers)
    qed
  qed
qed

lemma inv_getWorker:
  assumes "getWorker av aff s = (r, s2)" and "pool_inv s"
  shows "pool_inv s2"
proof -
  obtain chosen s1 where ch: "chooseWorker av aff s = (chosen, s1)"
    by (cases "chooseWorker av aff s")
  have "config s1 = config s"
    by (rule config_chooseWorker [OF ch])
  with chooseWorker_frame(1) [OF ch] assms(2) have "pool_inv s1"
    by (simp add: pool_inv_def config_def)
  with assms(1) ch show ?thesis
    by (auto simp: getWorker_def pushWorker_eq pool_inv_def split: if_splits)
qed

lemma inv_removeWorkerFromList: "pool_inv s \<Longrightarrow> pool_inv (removeWorkerFromList w s)"
proof -
  have "length (remove1 w ws) \<le> length ws" for ws :: "nat list"
    by (simp add: length_remove1)
  then have "int (length (remove1 w (workers s))) \<le> int (length (workers s))"
    by simp
  then show "pool_inv s \<Longrightarrow> pool_inv (removeWorkerFromList w s)"
    by (simp add: pool_inv_def removeWorkerFromList_def)
qed

lemma inv_trace: "pool_inv (s\<lparr>trace := tr\<rparr>) = pool_inv s"
  by (simp add: pool_inv_def)

lemma inv_removeWorker: "pool_inv s \<Longrightarrow> pool_inv (removeWorker w s)"
  by (simp add: removeWorker_def Let_def inv_trace inv_ensureMinWorkers inv_removeWorkerFromList)

lemma inv_dispatch: "pool_inv (dispatch w t s) = pool_inv s"
  by (simp add: dispatch_def Let_def pool_inv_def split: jsval.splits)

lemma inv_tasks: "pool_inv (s\<lparr>tasks := ts\<rparr>) = pool_inv s"
  by (simp add: pool_inv_def)

lemma inv_poolNext:
  assumes "pool_inv s"
  shows "pool_inv (poolNext av s)"
proof (rule poolNext_preserves [where P = pool_inv])
  show "pool_inv s1" if "pool_inv s'" "getWorker av' aff s' = (r, s1)" for av' aff s' r s1
    using that(2) that(1) by (rule inv_getWorker)
  show "pool_inv (s'\<lparr>tasks := tl (tasks s')\<rparr>)" if "pool_inv s'" for s'
    using that by (simp add: inv_tasks)
  show "pool_inv (dispatch w t s')" if "pool_inv s'" for w t s'
    using that by (simp add: inv_dispatch)
  show "pool_inv s" by (rule assms)
qed

lemma inv_exec:
  assumes "pool_inv s"
  shows "pool_inv (snd (exec av meth prms opts s))"
proof (rule exec_preserves [where P = pool_inv])
  show "pool_inv (poolNext av' s')" if "pool_inv s'" for av' s'
    using that by (rule inv_poolNext)
  show "pool_inv (s'\<lparr>tasks := tasks s' @ [t], freshTask := Suc (freshTask s')\<rparr>)"
    if "pool_inv s'" for t s'
    using that by (simp add: pool_inv_def)
  show "pool_inv s" by (rule assms)
qed

lemma inv_apply_op:
  assumes "pool_inv s"
  shows "pool_inv (apply_op op s)"
proof (cases op)
  case (OpExec av meth prms opts)
  with assms show ?thesis by (simp add: inv_exec)
next
  case (OpProxy av nargs)
  with assms show ?thesis by (simp add: proxy_def inv_exec)
next
  case (OpNext av)
  with assms show ?thesis by (simp add: inv_poolNext)
next
  case (OpGetWorker av aff)
  with assms show ?thesis
    using inv_getWorker [of av aff s] by (cases "getWorker av aff s") simp
next
  case OpEnsureMinWorkers
  with assms show ?thesis by (simp add: inv_ensureMinWorkers)
next
  case (OpRemoveWorker w)
  with assms show ?thesis by (simp add: inv_removeWorker)
next
  case (OpExecFailed terminated w)
  with assms show ?thesis by (simp add: execFailed_def inv_removeWorker)
next
  case (OpTerminateSettled w outcome)
  with assms show ?thesis
    by (simp add: terminate_settled_def Let_def inv_trace inv_removeWorkerFromList
        split: sum.splits)
qed (use assms in \<open>simp_all add: pool_inv_def removeWorker_done_def terminate_def Let_def
    promiseTimeout_def settleQueued_def timerFired_def\<close>)

lemma inv_run_ops: "pool_inv s \<Longrightarrow> pool_inv (run_ops ops s)"
  unfolding run_ops_def by (induction ops arbitrary: s) (simp_all add: inv_apply_op)

lemma raised_pool_constructed: "Pool None (ArgOptions raised_options) None = Inr raised_pool"
  by (simp add: Pool_eval raised_options_def ensureMinWorkers_eq raised_pool_def upt_conv_Cons)

text \<open>
  Claim C8. A constructed pool satisfies \<open>pool_inv\<close>: it has at most \<open>maxWorkers\<close>
  workers, and \<open>minWorkers\<close>, when set, is at most \<open>maxWorkers\<close> (the constructor raises
  \<open>maxWorkers\<close> to a larger \<open>minWorkers\<close>). Every operation of the pool keeps
  \<open>pool_inv\<close>, so after any sequence of operations on a constructed pool the number of
  workers is at most \<open>maxWorkers\<close>.
\<close>

theorem workers_bounded:
  "(Pool cpus arg1 options0 = Inr s0 \<longrightarrow>
      pool_inv s0 \<and> int (length (workers (run_ops ops s0))) \<le> maxWorkers (run_ops ops s0)) \<and>
   (pool_inv s \<longrightarrow> pool_inv (apply_op op s))"
proof -
  have "pool_inv s0 \<and> int (length (workers (run_ops ops s0))) \<le> maxWorkers (run_ops ops s0)"
    if "Pool cpus arg1 options0 = Inr s0"
  proof -
    have "pool_inv s0" using that by (rule inv_Pool)
    moreover from this have "pool_inv (run_ops ops s0)" by (rule inv_run_ops)
    ultimately show ?thesis by (simp add: pool_inv_def)
  qed
  then show ?thesis
    by (simp add: inv_apply_op)
qed


theorem workers_bounded_witness:
  "Pool None (ArgOptions raised_options) None = Inr raised_pool \<and>
   maxWorkers raised_pool = 3 \<and> length (workers raised_pool) = 3 \<and>
   pool_inv raised_pool \<and>
   int (length (workers (run_ops [OpRemoveWorker 1, OpGetWorker (\<lambda>w. False) None,
          OpExec (\<lambda>w. False) (Str ''a'') Undefined None] raised_pool))) \<le>
     maxWorkers (run_ops [OpRemoveWorker 1, OpGetWorker (\<lambda>w. False) None,
          OpExec (\<lambda>w. False) (Str ''a'') Undefined None] raised_pool) \<and>
   pool_inv (apply_op (OpRemoveWorker 1) raised_pool)"
proof -
  note c = raised_pool_constructed
  have m: "maxWorkers raised_pool = 3" "length (workers raised_pool) = 3"
    by (simp_all add: raised_pool_def)
  note b = workers_bounded [of None "ArgOptions raised_options" None raised_pool
      "[OpRemoveWorker 1, OpGetWorker (\<lambda>w. False) None,
        OpExec (\<lambda>w. False) (Str ''a'') Undefined None]" raised_pool "OpRemoveWorker 1"]
  from b c m show ?thesis
    by blast
qed

subsection \<open>Termination\<close>

lemma count_list_remove1:
  "count_list (remove1 x ys) w = (if w = x then count_list ys w - 1 else count_list ys w)"
  by (induction ys) auto

lemma filter_remove1_dropped: "\<not> P x \<Longrightarrow> filter P (remove1 x ys) = filter P ys"
  by (induction ys) auto

text \<open>The worker list after the settlements of \<open>xs\<close>, started from \<open>ys\<close>.\<close>

lemma settle_workers:
  assumes "\<forall>w \<in> set xs. outcome w = Inr w \<or> isl (outcome w)"
    and "\<forall>w. \<not> isl (outcome w) \<longrightarrow> count_list (workers s) w \<le> count_list xs w"
  shows "workers (fold (\<lambda>w. terminate_settled w (outcome w)) xs s) =
           filter (\<lambda>w. isl (outcome w)) (workers s)"
  using assms
proof (induction xs arbitrary: s)
  case Nil
  have "isl (outcome w)" if "w \<in> set (workers s)" for w
  proof (rule ccontr)
    assume "\<not> isl (outcome w)"
    with Nil.prems(2) have "count_list (workers s) w = 0" by simp
    with that show False by (simp add: count_list_0_iff)
  qed
  then show ?case by simp
next
  case (Cons x xs)
  let ?s = "terminate_settled x (outcome x) s"
  have rest: "\<forall>w \<in> set xs. outcome w = Inr w \<or> isl (outcome w)"
    using Cons.prems(1) by simp
  show ?case
  proof (cases "isl (outcome x)")
    case True
    then have w: "workers ?s = workers s"
      by (cases "outcome x") (simp_all add: terminate_settled_def)
    have "\<forall>w. \<not> isl (outcome w) \<longrightarrow> count_list (workers ?s) w \<le> count_list xs w"
    proof (intro allI impI)
      fix v assume v: "\<not> isl (outcome v)"
      with True have "v \<noteq> x" by blast
      moreover from v Cons.prems(2) have "count_list (workers s) v \<le> count_list (x # xs) v"
        by blast
      ultimately show "count_list (workers ?s) v \<le> count_list xs v"
        by (simp add: w)
    qed
    from Cons.IH [OF rest this] w show ?thesis by simp
  next
    case False
    with Cons.prems(1) have ox: "outcome x = Inr x" by simp
    then have w: "workers ?s = remove1 x (workers s)"
      by (simp add: terminate_settled_def removeWorkerFromList_def)
    have "\<forall>w. \<not> isl (outcome w) \<longrightarrow> count_list (workers ?s) w \<le> count_list xs w"
    proof (intro allI impI)
      fix v assume "\<not> isl (outcome v)"
      with Cons.prems(2) have "count_list (workers s) v \<le> count_list (x # xs) v" by blast
      then show "count_list (workers ?s) v \<le> count_list xs v"
        by (simp add: w count_list_remove1 split: if_splits)
    qed
    from Cons.IH [OF rest this] w False show ?thesis
      by (simp add: filter_remove1_dropped)
  qed
qed

lemma settle_frame:
  "tasks (fold (\<lambda>w. terminate_settled w (outcome w)) xs s) = tasks s \<and>
   trace (fold (\<lambda>w. terminate_settled w (outcome w)) xs s) = trace s @ map OnTerminateWorker xs"
proof (induction xs arbitrary: s)
  case Nil
  show ?case by simp
next
  case (Cons x xs)
  have "tasks (terminate_settled x (outcome x) s) = tasks s"
    "trace (terminate_settled x (outcome x) s) = trace s @ [OnTerminateWorker x]"
    by (simp_all add: terminate_settled_def removeWorkerFromList_def Let_def split: sum.splits)
  with Cons.IH [of "terminate_settled x (outcome x) s"] show ?case by simp
qed

text \<open>
  Claim C1, amended. \<open>terminate(force, timeout)\<close> rejects the resolver of every queued
  task with \<open>Error("Pool terminated")\<close>, empties the queue, calls
  \<open>terminateAndNotify(force, timeout)\<close> on every worker of a copy of the list and, once
  these calls have settled, has called \<open>onTerminateWorker\<close> for each of them, whatever the
  outcome. A worker whose call resolved (with its handle) is removed from the list; a
  worker whose call was rejected stays in the list.
\<close>

theorem terminate_all:
  assumes "\<forall>w \<in> set (workers s). outcome w = Inr w \<or> isl (outcome w)"
  shows "tasks (terminateAll force tmo outcome s) = [] \<and>
         trace (terminateAll force tmo outcome s) =
           trace s @ map (\<lambda>t. ResolverReject (tid t) (Error ''Pool terminated'')) (tasks s) @
             map (\<lambda>w. TerminateAndNotify w force tmo) (workers s) @
             map OnTerminateWorker (workers s) \<and>
         workers (terminateAll force tmo outcome s) =
           filter (\<lambda>w. isl (outcome w)) (workers s)"
proof -
  obtain s1 where t: "terminate force tmo s = (workers s, s1)"
    and s1: "tasks s1 = []" "workers s1 = workers s"
      "trace s1 = trace s @ map (\<lambda>t. ResolverReject (tid t) (Error ''Pool terminated'')) (tasks s) @
         map (\<lambda>w. TerminateAndNotify w force tmo) (workers s)"
    by (simp add: terminate_def Let_def)
  have all: "terminateAll force tmo outcome s =
      fold (\<lambda>w. terminate_settled w (outcome w)) (workers s) s1"
    by (simp add: terminateAll_def t)
  have "workers (fold (\<lambda>w. terminate_settled w (outcome w)) (workers s) s1) =
      filter (\<lambda>w. isl (outcome w)) (workers s1)"
    by (rule settle_workers) (use assms s1 in simp_all)
  with all s1 settle_frame [of outcome "workers s" s1] show ?thesis
    by simp
qed

theorem terminate_all_witness:
  "workers queue_pool = [0] \<and> all_resolve 0 = Inr 0 \<and>
   tasks (terminateAll True (Some 100) all_resolve queue_pool) = [] \<and>
   workers (terminateAll True (Some 100) all_resolve queue_pool) = [] \<and>
   trace (terminateAll True (Some 100) all_resolve queue_pool) =
     trace queue_pool @
       [ResolverReject 1 (Error ''Pool terminated''), ResolverReject 2 (Error ''Pool terminated''),
        TerminateAndNotify 0 True (Some 100), OnTerminateWorker 0]"
proof -
  have h: "\<forall>w \<in> set (workers queue_pool). all_resolve w = Inr w \<or> isl (all_resolve w)"
    by (simp add: all_resolve_def)
  have q: "workers queue_pool = [0]" "map tid (tasks queue_pool) = [1, 2]"
    by (simp_all add: queue_pool_def cancelled_task_def timed_task_def)
  have m: "map (\<lambda>t. ResolverReject (tid t) e) ts = map (\<lambda>p. ResolverReject p e) (map tid ts)"
    for e and ts :: "task list"
    by simp
  have f: "filter (\<lambda>w. isl (all_resolve w)) [0] = []"
    by (simp add: all_resolve_def)
  have r: "all_resolve 0 = Inr 0"
    by (simp add: all_resolve_def)
  from terminate_all [OF h, of True "Some 100"] r show ?thesis
    unfolding m q f by simp
qed

text \<open>
  The claim as stated fails when \<open>terminateAndNotify\<close> is rejected: \<open>then(removeWorker)\<close>
  is skipped, so the worker is still in the list after \<open>onTerminateWorker\<close> was called
  for it.
\<close>

theorem terminate_keeps_failed_worker:
  "workers (terminateAll True (Some 100) first_fails pair_pool) = [0] \<and>
   trace (terminateAll True (Some 100) first_fails pair_pool) =
     trace pair_pool @
       [TerminateAndNotify 0 True (Some 100), TerminateAndNotify 1 True (Some 100),
        OnTerminateWorker 0, OnTerminateWorker 1]"
  by (simp add: terminateAll_def terminate_def terminate_settled_def removeWorkerFromList_def
      first_fails_def pair_pool_def Let_def)

subsection \<open>Submitting a function\<close>

text \<open>
  Claim C2. The claim asks that \<open>exec(f, p, o)\<close> for a callable \<open>f\<close> be
  \<open>exec("run", [String(f), p], o)\<close>. The source calls
  \<open>this.exec("run", [String(method), params])\<close> with no third argument (lemma \<open>exec_Fn\<close>),
  so the task is queued without its options. On the pool of two busy workers, with
  \<open>{affinity: 1}\<close>: the submission of the function leaves the task in the queue with no
  options, where the submission of \<open>"run"\<close> with the same options hands the task to
  \<open>workers[1]\<close> with them.
\<close>

theorem exec_function_drops_options:
  "exec (\<lambda>w. False) (Fn ''function (a) { return a }'') (Arr [Num 1]) (Some pinned_options)
     pair_pool =
     (Inr 0,
      pair_pool\<lparr>tasks := [\<lparr>tid = 0, methodName = ''run'',
                 params = Arr [Str ''function (a) { return a }'', Arr [Num 1]], timeout = Null,
                 options = None, pending = True\<rparr>],
        freshTask := 1\<rparr>) \<and>
   exec (\<lambda>w. False) (Str ''run'') (Arr [Str ''function (a) { return a }'', Arr [Num 1]])
     (Some pinned_options) pair_pool =
     (Inr 0,
      pair_pool\<lparr>freshTask := 1,
        trace := trace pair_pool @
          [WorkerExec 1 \<lparr>tid = 0, methodName = ''run'',
             params = Arr [Str ''function (a) { return a }'', Arr [Num 1]], timeout = Null,
             options = Some pinned_options, pending = True\<rparr>]\<rparr>)"
proof -
  let ?src = "''function (a) { return a }''"
  let ?t = "\<lambda>opts. \<lparr>tid = 0, methodName = ''run'', params = Arr [Str ?src, Arr [Num 1]],
     timeout = Null, options = opts, pending = True\<rparr>"
  let ?q = "\<lambda>opts. pair_pool\<lparr>tasks := tasks pair_pool @ [?t opts],
     freshTask := Suc (freshTask pair_pool)\<rparr>"
  have fn: "exec (\<lambda>w. False) (Fn ?src) (Arr [Num 1]) (Some pinned_options) pair_pool =
      exec (\<lambda>w. False) (Str ''run'') (Arr [Str ?src, Arr [Num 1]]) None pair_pool"
    by (simp add: exec_Fn)
  have str: "exec (\<lambda>w. False) (Str ''run'') (Arr [Str ?src, Arr [Num 1]]) opts pair_pool =
      (Inr 0, poolNext (\<lambda>w. False) (?q opts))" for opts
    by (simp add: exec_Str) (simp add: pair_pool_def)
  have tq: "tasks (?q opts) = ?t opts # []" for opts
    by (simp add: pair_pool_def)
  have g0: "getWorker (\<lambda>w. False) (taskAffinity (?t None)) (?q None) = (None, ?q None)"
    by (simp add: getWorker_def chooseWorker_def taskAffinity_def pair_pool_def)
  have g1: "getWorker (\<lambda>w. False) (taskAffinity (?t (Some pinned_options)))
      (?q (Some pinned_options)) = (Some 1, ?q (Some pinned_options))"
    by (simp add: getWorker_def chooseWorker_def taskAffinity_def pair_pool_def pinned_options_def
        js_rem_def worker_at_def)
  have n0: "poolNext (\<lambda>w. False) (?q None) = ?q None"
    unfolding poolNext_Cons [OF tq g0] by simp
  have n1: "poolNext (\<lambda>w. False) (?q (Some pinned_options)) =
      dispatch 1 (?t (Some pinned_options)) ((?q (Some pinned_options))\<lparr>tasks := []\<rparr>)"
    unfolding poolNext_Cons [OF tq g1] by simp
  show ?thesis
    unfolding fn str n0 n1 by (simp add: dispatch_def pair_pool_def)
qed

end
